theory Spec2Isabelle
  imports Main "HOL-Library.Sublist"
begin

text \<open>
  A development over \<open>minify-literals\<close>: the default strategy
  (\<open>lib/strategy.ts\<close>: \<open>getPlaceholder\<close>, \<open>combineHTMLStrings\<close>, \<open>minifyHTML\<close>,
  \<open>minifyCSS\<close>, \<open>splitHTMLByPlaceholder\<close>, \<open>adjustMinifyCSSOptions\<close>,
  \<open>fixCleanCssTidySelectors\<close>) and the entry point with its default validation
  (\<open>defaultValidation\<close>, \<open>minifyHTMLLiterals\<close>).  The functions are embedded as
  they are written; what they take from outside is made a parameter: the random
  bytes and integers, the two external minifiers, the literal parser and the
  text-editing buffer.  A function that throws returns \<open>Inl\<close> of the error; one
  that may not return has an \<open>option\<close> result, with \<open>None\<close> for not returning.
\<close>

section \<open>Strings of the host language\<close>

text \<open>
  Source strings are sequences of code units; they are modelled as \<open>string\<close>
  (a list of 8-bit characters), which covers every code unit below 256.  The
  library operations of the host language that the strategy calls
  (\<open>indexOf\<close>, \<open>slice\<close>, \<open>split\<close>, \<open>includes\<close>, \<open>endsWith\<close>,
  \<open>replaceAll\<close>) are written out here as their language standard defines them.
\<close>

text \<open>\<open>first_index pat s\<close>: the least index at which \<open>pat\<close> occurs in \<open>s\<close>.\<close>

fun first_index :: "string \<Rightarrow> string \<Rightarrow> nat option" where
  "first_index pat [] = (if pat = [] then Some 0 else None)"
| "first_index pat (c # cs) =
     (if prefix pat (c # cs) then Some 0 else map_option Suc (first_index pat cs))"

text \<open>\<open>s.indexOf(pat, pos)\<close>; \<open>None\<close> stands for the result \<open>-1\<close>.\<close>

definition indexOf :: "string \<Rightarrow> string \<Rightarrow> nat \<Rightarrow> nat option" where
  "indexOf s pat pos =
     (let p = min pos (length s) in map_option (\<lambda>i. p + i) (first_index pat (drop p s)))"

text \<open>\<open>s.slice(a, b)\<close> and \<open>s.slice(a)\<close> for non-negative arguments.\<close>

definition slice :: "string \<Rightarrow> nat \<Rightarrow> nat \<Rightarrow> string" where
  "slice s a b = take (b - a) (drop a s)"

definition slice_from :: "string \<Rightarrow> nat \<Rightarrow> string" where
  "slice_from s a = drop a s"

text \<open>\<open>s.includes(pat)\<close>.\<close>

definition str_includes :: "string \<Rightarrow> string \<Rightarrow> bool" where
  "str_includes s pat = (first_index pat s \<noteq> None)"

text \<open>\<open>s.endsWith(pat)\<close>.\<close>

definition endsWith :: "string \<Rightarrow> string \<Rightarrow> bool" where
  "endsWith s pat = suffix pat s"

lemma first_index_bound:
  "first_index pat s = Some i \<Longrightarrow> i + length pat \<le> length s"
proof (induction s arbitrary: i)
  case Nil
  then show ?case by (simp split: if_splits)
next
  case (Cons c cs)
  show ?case
  proof (cases "prefix pat (c # cs)")
    case True
    with Cons.prems have "i = 0" by simp
    with prefix_length_le[OF True] show ?thesis by simp
  next
    case False
    with Cons.prems obtain j where "first_index pat cs = Some j" "i = Suc j"
      by auto
    with Cons.IH show ?thesis by fastforce
  qed
qed

text \<open>
  \<open>s.split(sep)\<close> with a string separator: an empty separator yields the code
  units one by one; otherwise the string is cut at each successive occurrence of
  the separator, searched from the end of the previous one.
\<close>

function split_at :: "string \<Rightarrow> string \<Rightarrow> string list" where
  "split_at sep s =
     (if sep = [] then [s]
      else case first_index sep s of
             None \<Rightarrow> [s]
           | Some j \<Rightarrow> take j s # split_at sep (drop (j + length sep) s))"
  by pat_completeness auto
termination
proof (relation "measure (\<lambda>(sep, s). length s)")
  show "wf (measure (\<lambda>(sep, s). length s))" by simp
next
  fix sep s :: string and j :: nat
  assume ne: "sep \<noteq> []" and found: "first_index sep s = Some j"
  from ne have "0 < length sep" by simp
  with first_index_bound[OF found] have "length s - (j + length sep) < length s"
    by arith
  then show "((sep, drop (j + length sep) s), (sep, s)) \<in> measure (\<lambda>(sep, s). length s)"
    by simp
qed

declare split_at.simps [simp del]

definition js_split :: "string \<Rightarrow> string \<Rightarrow> string list" where
  "js_split s sep = (if sep = [] then map (\<lambda>c. [c]) s else split_at sep s)"

section \<open>Placeholders and the splitter\<close>

text \<open>
  A placeholder is the value of type \<open>string | string[]\<close> that the strategy passes
  around: one token (markup mode) or an ordered list of tokens (stylesheet mode).
\<close>

datatype placeholder = Single string | Multi "string list"

text \<open>The errors the strategy and the validation raise.\<close>

datatype error =
    PlaceholderNotFound string string
  | InvalidPlaceholder
  | PartsMismatch
  | MinifyCSSFailed "string list"

text \<open>
  The multi-token branch of \<open>splitHTMLByPlaceholder\<close>: the loop over the tokens,
  with the cursor \<open>pos\<close> and the segments pushed so far.
\<close>

fun split_scan :: "string \<Rightarrow> string list \<Rightarrow> nat \<Rightarrow> string list \<Rightarrow> error + string list" where
  "split_scan html [] pos parts = Inr (parts @ [slice_from html pos])"
| "split_scan html (ph # phs) pos parts =
     (case indexOf html ph pos of
        None \<Rightarrow> Inl (PlaceholderNotFound ph html)
      | Some index \<Rightarrow> split_scan html phs (index + length ph) (parts @ [slice html pos index]))"

text \<open>
  The single-token branch re-splits every segment on the token without its final
  semicolon, from the last segment down to the first, splicing the pieces in
  place of the segment.  \<open>resplit w i parts\<close> is the loop with \<open>i\<close> segments still
  to visit.
\<close>

fun resplit :: "string \<Rightarrow> nat \<Rightarrow> string list \<Rightarrow> string list" where
  "resplit w 0 parts = parts"
| "resplit w (Suc i) parts =
     resplit w i (take i parts @ js_split (parts ! i) w @ drop (Suc i) parts)"

definition splitHTMLByPlaceholder :: "string \<Rightarrow> placeholder \<Rightarrow> error + string list" where
  "splitHTMLByPlaceholder html placeholder =
     (case placeholder of
        Single p \<Rightarrow>
          (let parts = js_split html p in
           if endsWith p '';'' then
             (let withoutSemicolon = take (length p - 1) p
              in Inr (resplit withoutSemicolon (length parts) parts))
           else Inr parts)
      | Multi phs \<Rightarrow> split_scan html phs 0 [])"

text \<open>
  Interleaving segments with tokens: segment, token, segment, ..., segment.
\<close>

fun interleave :: "string list \<Rightarrow> string list \<Rightarrow> string" where
  "interleave [] ts = []"
| "interleave (s # ss) [] = s @ concat ss"
| "interleave (s # ss) (t # ts) = s @ t @ interleave ss ts"

text \<open>
  The reading of the scan in the specification's words.  \<open>occurs_at html tok j\<close>: the
  token stands in \<open>html\<close> at index \<open>j\<close>; \<open>occurs_from html tok pos\<close>: it has an
  occurrence at or after the cursor \<open>pos\<close>; \<open>next_occurrence html tok pos j\<close>: \<open>j\<close> is
  its first occurrence at or after \<open>pos\<close>.  \<open>located html pos toks idxs\<close>: the tokens,
  in order, are found at the indices \<open>idxs\<close>, each at its next occurrence from the
  cursor left by the one before (the end of that token's occurrence);
  \<open>cursor\<close> is the cursor left after them and \<open>segments\<close> the text between them.
\<close>

definition occurs_at :: "string \<Rightarrow> string \<Rightarrow> nat \<Rightarrow> bool" where
  "occurs_at html tok j = (j + length tok \<le> length html \<and> take (length tok) (drop j html) = tok)"

definition occurs_from :: "string \<Rightarrow> string \<Rightarrow> nat \<Rightarrow> bool" where
  "occurs_from html tok pos = (\<exists>j\<in>{pos..length html}. occurs_at html tok j)"

definition next_occurrence :: "string \<Rightarrow> string \<Rightarrow> nat \<Rightarrow> nat \<Rightarrow> bool" where
  "next_occurrence html tok pos j =
     (pos \<le> j \<and> occurs_at html tok j \<and> (\<forall>i\<in>{pos..<j}. \<not> occurs_at html tok i))"

fun located :: "string \<Rightarrow> nat \<Rightarrow> string list \<Rightarrow> nat list \<Rightarrow> bool" where
  "located html pos [] [] = True"
| "located html pos (t # ts) (i # idxs) =
     (next_occurrence html t pos i \<and> located html (i + length t) ts idxs)"
| "located html pos _ _ = False"

fun cursor :: "nat \<Rightarrow> string list \<Rightarrow> nat list \<Rightarrow> nat" where
  "cursor pos (t # ts) (i # idxs) = cursor (i + length t) ts idxs"
| "cursor pos _ _ = pos"

fun segments :: "string \<Rightarrow> nat \<Rightarrow> string list \<Rightarrow> nat list \<Rightarrow> string list" where
  "segments html pos (t # ts) (i # idxs) = slice html pos i # segments html (i + length t) ts idxs"
| "segments html pos _ _ = [slice_from html pos]"

section \<open>Templates and the placeholder generator\<close>

text \<open>
  A part of a template: its raw text and its offsets in the original source (the
  fields \<open>text\<close>, \<open>start\<close> and \<open>end\<close> of the parser's \<open>TemplatePart\<close>).  A template
  is its optional tag and its parts.
\<close>

record TemplatePart =
  part_text :: string
  part_start :: nat
  part_end :: nat

record Template =
  template_tag :: "string option"
  template_parts :: "TemplatePart list"

text \<open>
  Character classes of the regular expressions in the strategy: \<open>\s\<close>, \<open>\w\<close> and
  the line terminators that \<open>.\<close> does not match, on code units below 256.
\<close>

definition code_unit :: "char \<Rightarrow> nat" where
  "code_unit c = of_char c"

definition is_space :: "char \<Rightarrow> bool" where
  "is_space c = (code_unit c \<in> {9, 10, 11, 12, 13, 32, 160})"

definition is_word :: "char \<Rightarrow> bool" where
  "is_word c = (let n = code_unit c in
     (48 \<le> n \<and> n \<le> 57) \<or> (65 \<le> n \<and> n \<le> 90) \<or> n = 95 \<or> (97 \<le> n \<and> n \<le> 122))"

definition is_line_terminator :: "char \<Rightarrow> bool" where
  "is_line_terminator c = (code_unit c = 10 \<or> code_unit c = 13)"

text \<open>\<open>toLowerCase\<close> on code units below 256, and \<open>trim\<close>.\<close>

definition upper_letters :: string where
  "upper_letters = ''ABCDEFGHIJKLMNOPQRSTUVWXYZ'' @
     [CHR 0xC0, CHR 0xC1, CHR 0xC2, CHR 0xC3, CHR 0xC4, CHR 0xC5, CHR 0xC6, CHR 0xC7,
      CHR 0xC8, CHR 0xC9, CHR 0xCA, CHR 0xCB, CHR 0xCC, CHR 0xCD, CHR 0xCE, CHR 0xCF,
      CHR 0xD0, CHR 0xD1, CHR 0xD2, CHR 0xD3, CHR 0xD4, CHR 0xD5, CHR 0xD6,
      CHR 0xD8, CHR 0xD9, CHR 0xDA, CHR 0xDB, CHR 0xDC, CHR 0xDD, CHR 0xDE]"

definition lower_letters :: string where
  "lower_letters = ''abcdefghijklmnopqrstuvwxyz'' @
     [CHR 0xE0, CHR 0xE1, CHR 0xE2, CHR 0xE3, CHR 0xE4, CHR 0xE5, CHR 0xE6, CHR 0xE7,
      CHR 0xE8, CHR 0xE9, CHR 0xEA, CHR 0xEB, CHR 0xEC, CHR 0xED, CHR 0xEE, CHR 0xEF,
      CHR 0xF0, CHR 0xF1, CHR 0xF2, CHR 0xF3, CHR 0xF4, CHR 0xF5, CHR 0xF6,
      CHR 0xF8, CHR 0xF9, CHR 0xFA, CHR 0xFB, CHR 0xFC, CHR 0xFD, CHR 0xFE]"

definition lower_char :: "char \<Rightarrow> char" where
  "lower_char c = (case map_of (zip upper_letters lower_letters) c of None \<Rightarrow> c | Some d \<Rightarrow> d)"

definition toLowerCase :: "string \<Rightarrow> string" where
  "toLowerCase s = map lower_char s"

definition trim :: "string \<Rightarrow> string" where
  "trim s = rev (dropWhile is_space (rev (dropWhile is_space s)))"

text \<open>
  \<open>text.replace(/\/\*[\s\S]*?\*\//g, "")\<close>: every stylesheet comment is removed, a
  comment running from \<open>/*\<close> to the first \<open>*/\<close> after it; a \<open>/*\<close> with no \<open>*/\<close> after it
  stays.  \<open>after_comment s\<close> is the text after the first \<open>*/\<close> of \<open>s\<close>.
\<close>

fun after_comment :: "string \<Rightarrow> string option" where
  "after_comment [] = None"
| "after_comment [c] = None"
| "after_comment (c # d # cs) =
     (if c = CHR ''*'' \<and> d = CHR ''/'' then Some cs else after_comment (d # cs))"

lemma after_comment_shorter [termination_simp]:
  "after_comment s = Some r \<Longrightarrow> length r < length s"
  by (induction s arbitrary: r rule: after_comment.induct) (auto split: if_splits)

fun strip_comments :: "string \<Rightarrow> string" where
  "strip_comments [] = []"
| "strip_comments [c] = [c]"
| "strip_comments (c # d # cs) =
     (if c = CHR ''/'' \<and> d = CHR ''*'' then
        (case after_comment cs of
           Some rest \<Rightarrow> strip_comments rest
         | None \<Rightarrow> c # strip_comments (d # cs))
      else c # strip_comments (d # cs))"

text \<open>
  The random inputs of \<open>getPlaceholder\<close> are made explicit: \<open>bytes\<close> is the result of
  \<open>randomBytes(6)\<close> and \<open>draws\<close> the successive results of \<open>randomInt(281474976710655)\<close>.
  \<open>toHex\<close> is \<open>toString("hex")\<close> and \<open>decimal\<close> the decimal numeral of a number.
\<close>

definition hex_digit :: "nat \<Rightarrow> char" where
  "hex_digit n = ''0123456789abcdef'' ! (n mod 16)"

definition toHex :: "nat list \<Rightarrow> string" where
  "toHex bytes = concat (map (\<lambda>b. [hex_digit (b div 16), hex_digit b]) bytes)"

fun decimal :: "nat \<Rightarrow> string" where
  "decimal n = (if n < 10 then [''0123456789'' ! n]
                else decimal (n div 10) @ [''0123456789'' ! (n mod 10)])"

declare decimal.simps [simp del]

text \<open>
  The tests on the text around a boundary, after comment stripping:
  \<open>/^\s*\{/\<close>, \<open>/^\s*:/\<close>, \<open>/\}\s*$/\<close> or blank, \<open>/^\w+/\<close>, \<open>/:\s*$/\<close>.
\<close>

definition isSelector :: "string \<Rightarrow> bool" where
  "isSelector afterCss = (case dropWhile is_space afterCss of c # _ \<Rightarrow> c = CHR ''{'' | [] \<Rightarrow> False)"

definition isKey :: "string \<Rightarrow> bool" where
  "isKey afterCss = (case dropWhile is_space afterCss of c # _ \<Rightarrow> c = CHR '':'' | [] \<Rightarrow> False)"

definition ends_with_before_spaces :: "char \<Rightarrow> string \<Rightarrow> bool" where
  "ends_with_before_spaces x s = (case dropWhile is_space (rev s) of c # _ \<Rightarrow> c = x | [] \<Rightarrow> False)"

definition isRule :: "string \<Rightarrow> bool" where
  "isRule beforeCss = (ends_with_before_spaces CHR ''}'' beforeCss \<or> length (trim beforeCss) = 0)"

definition isUnit :: "string \<Rightarrow> bool" where
  "isUnit afterCss = (case afterCss of c # _ \<Rightarrow> is_word c | [] \<Rightarrow> False)"

definition isValue :: "string \<Rightarrow> bool" where
  "isValue beforeCss = ends_with_before_spaces CHR '':'' beforeCss"

text \<open>
  The loop \<open>while (true) { num = `${randomInt(...)}`; if (!beforeFull.includes(num)) break; }\<close>:
  it consumes draws until one is not in \<open>beforeFull\<close>.  \<open>None\<close>: the supplied draws
  ran out before the loop ended.
\<close>

fun draw_num :: "string \<Rightarrow> nat list \<Rightarrow> (string \<times> nat list) option" where
  "draw_num beforeFull [] = None"
| "draw_num beforeFull (n # draws) =
     (let num = decimal n in
      if \<not> str_includes beforeFull num then Some (num, draws) else draw_num beforeFull draws)"

text \<open>
  The loop over the boundaries \<open>i = 1, ..., length parts - 1\<close> of stylesheet mode,
  with the tokens pushed so far and the draws left.
\<close>

function css_loop ::
  "string \<Rightarrow> TemplatePart list \<Rightarrow> nat \<Rightarrow> string list \<Rightarrow> nat list \<Rightarrow> placeholder option" where
  "css_loop random parts i placeholder draws =
     (if i < length parts then
        (let beforeFull = part_text (parts ! (i - 1));
             beforeCss = strip_comments beforeFull;
             afterFull = part_text (parts ! i);
             afterCss = strip_comments afterFull
         in if isSelector afterCss then
              css_loop random parts (i + 1) (placeholder @ [''#'' @ random]) draws
            else if isKey afterCss then
              css_loop random parts (i + 1) (placeholder @ [''--'' @ random]) draws
            else if isRule beforeCss then
              Some (Single (''@'' @ random @ ''();''))
            else if isUnit afterCss then
              (case draw_num beforeFull draws of
                 None \<Rightarrow> None
               | Some (num, draws') \<Rightarrow> css_loop random parts (i + 1) (placeholder @ [num]) draws')
            else if isValue beforeCss then
              css_loop random parts (i + 1) (placeholder @ [''var(--'' @ random @ '')'']) draws
            else
              css_loop random parts (i + 1) (placeholder @ [''var(--'' @ random @ '')'']) draws)
      else Some (Multi placeholder))"
  by pat_completeness auto
termination
  by (relation "measure (\<lambda>(random, parts, i, placeholder, draws). length parts - i)") auto

declare css_loop.simps [simp del]

text \<open>
  Markup mode: \<open>suffix_call\<close> is the constant \<open>suffix\<close>, and \<open>grow\<close> the loop
  that appends \<open>_\<close> while some part's text includes the candidate.
\<close>

definition suffix_call :: string where
  "suffix_call = ''();''"

function grow :: "TemplatePart list \<Rightarrow> string \<Rightarrow> string" where
  "grow parts placeholder =
     (if list_ex (\<lambda>part. str_includes (part_text part) (placeholder @ suffix_call)) parts
      then grow parts (placeholder @ ''_'') else placeholder)"
  by pat_completeness auto
termination
proof (relation "measure (\<lambda>(parts, placeholder).
          sum_list (map (\<lambda>p. length (part_text p)) parts) - length placeholder)")
  show "wf (measure (\<lambda>(parts, placeholder).
          sum_list (map (\<lambda>p. length (part_text p)) parts) - length placeholder))" by simp
next
  fix parts :: "TemplatePart list" and placeholder :: string
  assume "list_ex (\<lambda>part. str_includes (part_text part) (placeholder @ suffix_call)) parts"
  then obtain p where p: "p \<in> set parts" "str_includes (part_text p) (placeholder @ suffix_call)"
    by (auto simp: list_ex_iff)
  from p(2) obtain i where "first_index (placeholder @ suffix_call) (part_text p) = Some i"
    by (auto simp: str_includes_def)
  from first_index_bound[OF this] have "length placeholder < length (part_text p)"
    by (simp add: suffix_call_def)
  also from p(1) have "length (part_text p) \<le> sum_list (map (\<lambda>p. length (part_text p)) parts)"
    by (simp add: member_le_sum_list)
  finally show "((parts, placeholder @ ''_''), (parts, placeholder))
      \<in> measure (\<lambda>(parts, placeholder).
          sum_list (map (\<lambda>p. length (part_text p)) parts) - length placeholder)"
    by simp
qed

declare grow.simps [simp del]

definition isCss :: "string option \<Rightarrow> bool" where
  "isCss tag = (case tag of None \<Rightarrow> False | Some t \<Rightarrow> str_includes (toLowerCase t) ''css'')"

definition getPlaceholder ::
  "TemplatePart list \<Rightarrow> string option \<Rightarrow> nat list \<Rightarrow> nat list \<Rightarrow> placeholder option" where
  "getPlaceholder parts tag bytes draws =
     (if isCss tag then css_loop (''tmp_'' @ toHex bytes) parts 1 [] draws
      else Some (Single (grow parts ''@TEMPLATE_EXPRESSION'' @ suffix_call)))"

text \<open>\<open>combineHTMLStrings\<close>; \<open>join\<close> is \<open>Array.prototype.join\<close>.\<close>

fun join :: "string \<Rightarrow> string list \<Rightarrow> string" where
  "join sep [] = []"
| "join sep [x] = x"
| "join sep (x # y # ys) = x @ sep @ join sep (y # ys)"

definition combineHTMLStrings :: "TemplatePart list \<Rightarrow> placeholder \<Rightarrow> string" where
  "combineHTMLStrings parts placeholder =
     (case placeholder of
        Single p \<Rightarrow> join p (map part_text parts)
      | Multi phs \<Rightarrow>
          concat (map (\<lambda>i. part_text (parts ! i) @ (if i < length phs then phs ! i else []))
                    [0..<length parts]))"

text \<open>
  The classification of a boundary, named: \<open>afterCss parts i\<close> and \<open>beforeCss parts i\<close>
  are the variables of the same names at boundary \<open>i\<close>; a boundary is in selector
  position when the first test of the loop holds, in rule position when the loop
  reaches the third test and it holds, in numeric-unit position when it reaches
  the fourth and it holds.
\<close>

definition afterCss :: "TemplatePart list \<Rightarrow> nat \<Rightarrow> string" where
  "afterCss parts i = strip_comments (part_text (parts ! i))"

definition beforeCss :: "TemplatePart list \<Rightarrow> nat \<Rightarrow> string" where
  "beforeCss parts i = strip_comments (part_text (parts ! (i - 1)))"

definition selector_position :: "TemplatePart list \<Rightarrow> nat \<Rightarrow> bool" where
  "selector_position parts i = isSelector (afterCss parts i)"

definition rule_position :: "TemplatePart list \<Rightarrow> nat \<Rightarrow> bool" where
  "rule_position parts i =
     (\<not> isSelector (afterCss parts i) \<and> \<not> isKey (afterCss parts i) \<and> isRule (beforeCss parts i))"

definition unit_position :: "TemplatePart list \<Rightarrow> nat \<Rightarrow> bool" where
  "unit_position parts i =
     (\<not> isSelector (afterCss parts i) \<and> \<not> isKey (afterCss parts i)
      \<and> \<not> isRule (beforeCss parts i) \<and> isUnit (afterCss parts i))"

section \<open>The minifier adapter\<close>

text \<open>
  The regular expressions with quantifiers are run by a backtracking matcher, as the
  host language runs them.  An expression is a list of items: \<open>One P\<close> one character
  of the class \<open>P\<close>; \<open>Opt P\<close>, \<open>Star P\<close> the greedy \<open>?\<close> and \<open>*\<close> on a class; \<open>Lazy P\<close>
  the lazy \<open>*?\<close>; \<open>Mark\<close> a group boundary, which records the position.
  \<open>rx_match r s pos marks\<close> matches \<open>r\<close> at the start of \<open>s\<close>, which stands at index
  \<open>pos\<close>, and returns the end index and the recorded positions of the first
  alternative that succeeds, in the matcher's order of preference.
\<close>

datatype rx = One "char \<Rightarrow> bool" | Opt "char \<Rightarrow> bool" | Star "char \<Rightarrow> bool"
  | Lazy "char \<Rightarrow> bool" | Mark

fun rx_match :: "rx list \<Rightarrow> string \<Rightarrow> nat \<Rightarrow> nat list \<Rightarrow> (nat \<times> nat list) option" where
  "rx_match [] s pos marks = Some (pos, marks)"
| "rx_match (Mark # r) s pos marks = rx_match r s pos (marks @ [pos])"
| "rx_match (One P # r) [] pos marks = None"
| "rx_match (One P # r) (c # cs) pos marks =
     (if P c then rx_match r cs (Suc pos) marks else None)"
| "rx_match (Opt P # r) [] pos marks = rx_match r [] pos marks"
| "rx_match (Opt P # r) (c # cs) pos marks =
     (case (if P c then rx_match r cs (Suc pos) marks else None) of
        Some m \<Rightarrow> Some m
      | None \<Rightarrow> rx_match r (c # cs) pos marks)"
| "rx_match (Star P # r) [] pos marks = rx_match r [] pos marks"
| "rx_match (Star P # r) (c # cs) pos marks =
     (case (if P c then rx_match (Star P # r) cs (Suc pos) marks else None) of
        Some m \<Rightarrow> Some m
      | None \<Rightarrow> rx_match r (c # cs) pos marks)"
| "rx_match (Lazy P # r) [] pos marks = rx_match r [] pos marks"
| "rx_match (Lazy P # r) (c # cs) pos marks =
     (case rx_match r (c # cs) pos marks of
        Some m \<Rightarrow> Some m
      | None \<Rightarrow> if P c then rx_match (Lazy P # r) cs (Suc pos) marks else None)"

text \<open>
  \<open>rx_find\<close> tries the start positions from left to right; \<open>rx_exec r s lastIndex\<close>
  is \<open>exec\<close> of a global expression whose \<open>lastIndex\<close> is given.
\<close>

fun rx_find :: "rx list \<Rightarrow> string \<Rightarrow> nat \<Rightarrow> (nat \<times> nat list) option" where
  "rx_find r [] pos = rx_match r [] pos []"
| "rx_find r (c # cs) pos =
     (case rx_match r (c # cs) pos [] of
        Some m \<Rightarrow> Some m
      | None \<Rightarrow> rx_find r cs (Suc pos))"

definition rx_exec :: "rx list \<Rightarrow> string \<Rightarrow> nat \<Rightarrow> (nat \<times> nat list) option" where
  "rx_exec r s lastIndex = rx_find r (drop lastIndex s) lastIndex"

text \<open>
  The two expressions: \<open>/<!--(.*?)@TEMPLATE_EXPRESSION\(\);(.*?)-->/g\<close> and
  \<open>/(::?.+\((.*)\))[\s\r\n]*{/gm\<close> (\<open>.\<close> matches no line terminator).
\<close>

definition lit :: "string \<Rightarrow> rx list" where
  "lit s = map (\<lambda>c. One (\<lambda>d. d = c)) s"

definition dot :: "char \<Rightarrow> bool" where
  "dot c = (\<not> is_line_terminator c)"

definition comment_rx :: "rx list" where
  "comment_rx = lit ''<!--'' @ [Mark, Lazy dot, Mark] @ lit ''@TEMPLATE_EXPRESSION();''
                 @ [Mark, Lazy dot, Mark] @ lit ''-->''"

definition tidy_rx :: "rx list" where
  "tidy_rx = [Mark, One (\<lambda>c. c = CHR '':''), Opt (\<lambda>c. c = CHR '':''), One dot, Star dot,
              One (\<lambda>c. c = CHR ''(''), Mark, Star dot, Mark, One (\<lambda>c. c = CHR '')''), Mark,
              Star is_space, One (\<lambda>c. c = CHR ''{'')]"

lemmas rx_defs = rx_exec_def lit_def dot_def comment_rx_def tidy_rx_def is_line_terminator_def
  is_space_def code_unit_def


text \<open>
  A match spans at least as many characters as the expression has \<open>One\<close> items and
  ends within the string; so the loop of \<open>fixCleanCssTidySelectors\<close> advances.
\<close>

fun ones :: "rx list \<Rightarrow> nat" where
  "ones [] = 0"
| "ones (One P # r) = Suc (ones r)"
| "ones (x # r) = ones r"

lemma rx_match_span:
  "rx_match r s pos marks = Some (e, m) \<Longrightarrow> pos + ones r \<le> e \<and> e \<le> pos + length s"
proof (induction r s pos marks arbitrary: e m rule: rx_match.induct)
  case (1 s pos marks)
  then show ?case by simp
next
  case (2 r s pos marks)
  then show ?case by simp
next
  case (3 P r pos marks)
  then show ?case by simp
next
  case (4 P r c cs pos marks)
  then show ?case by (fastforce split: if_splits)
next
  case (5 P r pos marks)
  then show ?case by simp
next
  case (6 P r c cs pos marks)
  then show ?case by (fastforce split: if_splits option.splits)
next
  case (7 P r pos marks)
  then show ?case by simp
next
  case (8 P r c cs pos marks)
  then show ?case by (fastforce split: if_splits option.splits)
next
  case (9 P r pos marks)
  then show ?case by simp
next
  case (10 P r c cs pos marks)
  then show ?case by (fastforce split: if_splits option.splits)
qed

lemma rx_find_span:
  "rx_find r s pos = Some (e, m) \<Longrightarrow> pos + ones r \<le> e \<and> e \<le> pos + length s"
proof (induction s arbitrary: pos)
  case Nil
  then show ?case using rx_match_span[of r "[]" pos "[]" e m] by simp
next
  case (Cons c cs)
  show ?case
  proof (cases "rx_match r (c # cs) pos []")
    case None
    with Cons.prems have "rx_find r cs (Suc pos) = Some (e, m)" by simp
    from Cons.IH[OF this] show ?thesis by simp
  next
    case (Some a)
    with Cons.prems have "rx_match r (c # cs) pos [] = Some (e, m)" by simp
    from rx_match_span[OF this] show ?thesis .
  qed
qed

lemma rx_exec_tidy_advances [termination_simp]:
  assumes "rx_exec tidy_rx s k = Some (e, m)"
  shows "length s - e < length s - k"
proof -
  have o: "ones tidy_rx = 5" by (simp add: tidy_rx_def)
  from assms have "rx_find tidy_rx (drop k s) k = Some (e, m)" by (simp add: rx_exec_def)
  from rx_find_span[OF this] o have "k + 5 \<le> e" "e \<le> k + (length s - k)" by simp_all
  then show ?thesis by arith
qed


text \<open>
  \<open>s.replaceAll(pat, rep)\<close> for a replacement without \<open>$\<close> patterns (every
  replacement passed to it in the strategy is such a constant).
\<close>

function replaceAll :: "string \<Rightarrow> string \<Rightarrow> string \<Rightarrow> string" where
  "replaceAll s pat rep =
     (if pat = [] then rep @ concat (map (\<lambda>c. c # rep) s)
      else case first_index pat s of
             None \<Rightarrow> s
           | Some j \<Rightarrow> take j s @ rep @ replaceAll (drop (j + length pat) s) pat rep)"
  by pat_completeness auto
termination
proof (relation "measure (\<lambda>(s, pat, rep). length s)")
  show "wf (measure (\<lambda>(s, pat, rep). length s))" by simp
next
  fix s pat rep :: string and j :: nat
  assume ne: "pat \<noteq> []" and found: "first_index pat s = Some j"
  from ne have "0 < length pat" by simp
  with first_index_bound[OF found] have "length s - (j + length pat) < length s"
    by arith
  then show "((drop (j + length pat) s, pat, rep), (s, pat, rep))
      \<in> measure (\<lambda>(s, pat, rep). length s)"
    by simp
qed

declare replaceAll.simps [simp del]

text \<open>
  \<open>s.replace(pat, rep)\<close> with a string pattern: the first occurrence is replaced by
  the expansion of the replacement's \<open>$$\<close>, \<open>$&\<close>, \<open>$`\<close> and \<open>$'\<close> patterns.
\<close>

fun expand :: "string \<Rightarrow> string \<Rightarrow> string \<Rightarrow> string \<Rightarrow> string" where
  "expand [] matched before after = []"
| "expand [c] matched before after = [c]"
| "expand (c # d # r) matched before after =
     (if c = CHR ''$'' \<and> d = CHR ''$'' then CHR ''$'' # expand r matched before after
      else if c = CHR ''$'' \<and> d = CHR ''&'' then matched @ expand r matched before after
      else if c = CHR ''$'' \<and> d = CHR 0x60 then before @ expand r matched before after
      else if c = CHR ''$'' \<and> d = CHR 0x27 then after @ expand r matched before after
      else c # expand (d # r) matched before after)"

definition replace_first :: "string \<Rightarrow> string \<Rightarrow> string \<Rightarrow> string" where
  "replace_first s pat rep =
     (case first_index pat s of
        None \<Rightarrow> s
      | Some j \<Rightarrow> take j s @ expand rep pat (take j s) (drop (j + length pat) s)
                   @ drop (j + length pat) s)"

text \<open>
  \<open>fixCleanCssTidySelectors\<close>: the loop over the matches of the expression in
  \<open>original\<close>; \<open>[g1s, g2s, g2e, g1e]\<close> are the boundaries of the two groups.
\<close>

function fix_loop :: "string \<Rightarrow> nat \<Rightarrow> string \<Rightarrow> string" where
  "fix_loop original lastIndex result =
     (case rx_exec tidy_rx original lastIndex of
        None \<Rightarrow> result
      | Some (e, marks) \<Rightarrow>
          (case marks of
             [g1s, g2s, g2e, g1e] \<Rightarrow>
               (let pseudoClass = slice original g1s g1e;
                    parameters = slice original g2s g2e
                in if \<not> list_ex is_space parameters then fix_loop original e result
                   else
                     (let parametersWithoutSpaces = filter (\<lambda>c. \<not> is_space c) parameters;
                          resultPseudoClass =
                            replace_first pseudoClass parameters parametersWithoutSpaces
                      in case indexOf result resultPseudoClass 0 of
                           None \<Rightarrow> fix_loop original e result
                         | Some resultStartIndex \<Rightarrow>
                             (let resultEndIndex = resultStartIndex + length resultPseudoClass
                              in fix_loop original e
                                   (slice result 0 resultStartIndex @ pseudoClass
                                      @ slice_from result resultEndIndex))))
           | _ \<Rightarrow> result))"
  by pat_completeness auto
termination
  by (relation "measure (\<lambda>(original, lastIndex, result). length original - lastIndex)")
     (auto simp: rx_exec_tidy_advances)

declare fix_loop.simps [simp del]

definition fixCleanCssTidySelectors :: "string \<Rightarrow> string \<Rightarrow> string" where
  "fixCleanCssTidySelectors original result = fix_loop original 0 result"

text \<open>
  The fix-up of line breaks inside \<open><svg\<close> elements: the indices of \<open>/<svg/g\<close>
  (its occurrences cannot overlap), visited from the last to the first.
\<close>

fun matchAll_index :: "string \<Rightarrow> string \<Rightarrow> nat \<Rightarrow> nat list" where
  "matchAll_index pat [] pos = []"
| "matchAll_index pat (c # cs) pos =
     (if prefix pat (c # cs) then pos # matchAll_index pat cs (Suc pos)
      else matchAll_index pat cs (Suc pos))"

fun strip_newlines :: "string \<Rightarrow> string" where
  "strip_newlines [] = []"
| "strip_newlines [c] = (if c = CHR 0x0A then [] else [c])"
| "strip_newlines (c # d # cs) =
     (if c = CHR 0x0D \<and> d = CHR 0x0A then strip_newlines cs
      else if c = CHR 0x0A then strip_newlines (d # cs)
      else c # strip_newlines (d # cs))"

definition svg_step :: "nat \<Rightarrow> string \<Rightarrow> string" where
  "svg_step startTagIndex result =
     (case indexOf result ''</svg'' startTagIndex of
        None \<Rightarrow> result
      | Some closeTagIndex \<Rightarrow>
          (let start = slice result 0 startTagIndex;
               svg = slice result startTagIndex closeTagIndex;
               end_part = slice_from result closeTagIndex
           in start @ strip_newlines svg @ end_part))"

definition svg_newlines :: "string \<Rightarrow> string" where
  "svg_newlines result = fold svg_step (rev (matchAll_index ''<svg'' result 0)) result"

text \<open>
  The options.  \<open>minifyCSS\<close> of the markup minifier's options is \<open>false\<close>, \<open>true\<close>, a
  function or an options object of the stylesheet minifier; the other fields are
  kept abstract.  An options object of the stylesheet minifier is \<open>'c option\<close>, with
  \<open>None\<close> for the empty object \<open>{}\<close>; adjusting it adds the plugin.
\<close>

datatype 'c css_option = CssOff | CssOn | CssFunction "string \<Rightarrow> string" | CssOptions 'c

record ('m, 'x) HTMLOptions =
  collapseWhitespace :: bool
  minifyCSS_option :: 'm
  other_options :: 'x

record 'c AdjustedCSSOptions =
  css_options :: "'c option"
  plugins :: "(string \<Rightarrow> string) list"

definition plugin_value :: "string \<Rightarrow> string" where
  "plugin_value v =
     (if \<not> prefix ''@TEMPLATE_EXPRESSION'' v \<or> endsWith v '';'' then v else v @ '';'')"

definition adjustMinifyCSSOptions :: "'c option \<Rightarrow> 'c AdjustedCSSOptions" where
  "adjustMinifyCSSOptions options = \<lparr>css_options = options, plugins = [plugin_value]\<rparr>"

record CleanCSSOutput =
  styles :: string
  errors :: "string list"
  warnings :: "string list"

text \<open>
  \<open>minifyHTML\<close> and \<open>minifyCSS\<close>.  The external minifiers are parameters: \<open>minify\<close>
  (which may fail) and \<open>cleanCSS\<close>, whose output carries the styles, the errors and
  the warnings.  Messages written to the console are left out.
\<close>

definition minifyHTML ::
  "(string \<Rightarrow> ('c AdjustedCSSOptions option, 'x) HTMLOptions \<Rightarrow> error + string)
     \<Rightarrow> string \<Rightarrow> ('c css_option, 'x) HTMLOptions \<Rightarrow> error + string" where
  "minifyHTML minify html options =
     (if rx_exec comment_rx html 0 \<noteq> None then Inr html
      else
        (let html1 = replaceAll html ''<@TEMPLATE_EXPRESSION();'' ''<TEMPLATE_EXPRESSION___'';
             html2 = replaceAll html1 ''</@TEMPLATE_EXPRESSION();'' ''</TEMPLATE_EXPRESSION___'';
             minifyCSSOptions =
               (case minifyCSS_option options of
                  CssOff \<Rightarrow> None
                | CssOn \<Rightarrow> Some None
                | CssFunction f \<Rightarrow> Some None
                | CssOptions c \<Rightarrow> Some (Some c));
             adjustedMinifyCSSOptions = map_option adjustMinifyCSSOptions minifyCSSOptions
         in case minify html2
                   \<lparr>collapseWhitespace = collapseWhitespace options,
                    minifyCSS_option = adjustedMinifyCSSOptions,
                    other_options = other_options options\<rparr> of
              Inl e \<Rightarrow> Inl e
            | Inr result \<Rightarrow>
                (let result1 = replaceAll result ''<TEMPLATE_EXPRESSION___'' ''<@TEMPLATE_EXPRESSION();'';
                     result2 = replaceAll result1 ''</TEMPLATE_EXPRESSION___''
                                 ''</@TEMPLATE_EXPRESSION();'';
                     result3 = (if collapseWhitespace options then svg_newlines result2
                                else result2)
                 in Inr (fixCleanCssTidySelectors html2 result3))))"

definition minifyCSS ::
  "('c AdjustedCSSOptions \<Rightarrow> string \<Rightarrow> CleanCSSOutput) \<Rightarrow> string \<Rightarrow> 'c option \<Rightarrow> error + string" where
  "minifyCSS cleanCSS css options =
     (let adjustedOptions = adjustMinifyCSSOptions options;
          css1 = replaceAll css ''@TEMPLATE_EXPRESSION();:'' ''--TEMPLATE-EXPRESSION:'';
          output = cleanCSS adjustedOptions css1
      in if errors output \<noteq> [] then Inl (MinifyCSSFailed (errors output))
         else if warnings output \<noteq> [] then
           Inr (filter (\<lambda>c. c \<noteq> CHR 0x0A \<and> c \<noteq> CHR 0x0D) css1)
         else
           (let styles1 = replaceAll (styles output) ''--TEMPLATE-EXPRESSION:''
                            ''@TEMPLATE_EXPRESSION();:''
            in Inr (fixCleanCssTidySelectors css1 styles1)))"

section \<open>The validator and the orchestrator\<close>

text \<open>
  The default validation, on values of the placeholder type \<open>string | string[]\<close>.
\<close>

definition ensurePlaceholderValid :: "placeholder \<Rightarrow> error + unit" where
  "ensurePlaceholderValid placeholder =
     (case placeholder of
        Single p \<Rightarrow> if length p > 0 then Inr () else Inl InvalidPlaceholder
      | Multi phs \<Rightarrow>
          if list_all (\<lambda>ph. length ph > 0) phs then Inr () else Inl InvalidPlaceholder)"

definition ensureHTMLPartsValid :: "TemplatePart list \<Rightarrow> string list \<Rightarrow> error + unit" where
  "ensureHTMLPartsValid parts htmlParts =
     (if length parts \<noteq> length htmlParts then Inl PartsMismatch else Inr ())"

lemmas adapter_defs = rx_defs replaceAll.simps replace_first_def fix_loop.simps
  fixCleanCssTidySelectors_def svg_step_def svg_newlines_def plugin_value_def
  adjustMinifyCSSOptions_def minifyHTML_def minifyCSS_def

text \<open>
  A strategy is the record of its five operations; \<open>minifyCSS\<close> is optional.  The
  random inputs of one call of \<open>getPlaceholder\<close> have type \<open>'r\<close>; for the default
  strategy they are the bytes and the draws.
\<close>

record ('o, 'c, 'r) Strategy =
  st_getPlaceholder :: "TemplatePart list \<Rightarrow> string option \<Rightarrow> 'r \<Rightarrow> placeholder option"
  st_combineHTMLStrings :: "TemplatePart list \<Rightarrow> placeholder \<Rightarrow> string"
  st_minifyHTML :: "string \<Rightarrow> 'o \<Rightarrow> error + string"
  st_minifyCSS :: "(string \<Rightarrow> 'c option \<Rightarrow> error + string) option"
  st_splitHTMLByPlaceholder :: "string \<Rightarrow> placeholder \<Rightarrow> error + string list"


record Validation =
  v_ensurePlaceholderValid :: "placeholder \<Rightarrow> error + unit"
  v_ensureHTMLPartsValid :: "TemplatePart list \<Rightarrow> string list \<Rightarrow> error + unit"

definition defaultValidation :: Validation where
  "defaultValidation =
     \<lparr>v_ensurePlaceholderValid = ensurePlaceholderValid,
      v_ensureHTMLPartsValid = ensureHTMLPartsValid\<rparr>"

datatype validation_option = DefaultValidation | NoValidation | CustomValidation Validation

text \<open>
  The text-editing buffer is the caller's \<open>MagicString\<close>: a constructor, \<open>overwrite\<close>,
  \<open>toString\<close> and \<open>generateMap\<close>, over a buffer type \<open>'ms\<close> and a source map type \<open>'m\<close>.
\<close>

record map_options =
  map_file :: string
  map_source :: string
  map_hires :: bool

record ('ms, 'm) MagicStringLike =
  ms_new :: "string \<Rightarrow> 'ms"
  ms_overwrite :: "nat \<Rightarrow> nat \<Rightarrow> string \<Rightarrow> 'ms \<Rightarrow> 'ms"
  ms_toString :: "'ms \<Rightarrow> string"
  ms_generateMap :: "map_options \<Rightarrow> 'ms \<Rightarrow> 'm"

datatype ('ms, 'm) source_map_option =
  DefaultSourceMap | NoSourceMap | CustomSourceMap "'ms \<Rightarrow> string \<Rightarrow> 'm option"


text \<open>
  The options of \<open>minifyHTMLLiterals\<close>, after the defaults of its first lines are
  filled in: \<open>MagicString\<close> and \<open>parseLiterals\<close> are the given or the default ones
  (\<open>parseLiterals\<close> applied to its options), \<open>minifyOptions\<close> the given options over
  \<open>defaultMinifyOptions\<close>.
\<close>

record ('c, 'x, 'r, 'ms, 'm) Options =
  fileName :: "string option"
  generateSourceMap :: "('ms, 'm) source_map_option"
  MagicString :: "('ms, 'm) MagicStringLike"
  parseLiterals :: "string \<Rightarrow> Template list"
  shouldMinify :: "(Template \<Rightarrow> bool) option"
  shouldMinifyCSS :: "(Template \<Rightarrow> bool) option"
  minifyOptions :: "('c css_option, 'x) HTMLOptions"
  strategy :: "(('c css_option, 'x) HTMLOptions, 'c, 'r) Strategy option"
  validate :: validation_option


definition defaultShouldMinify :: "Template \<Rightarrow> bool" where
  "defaultShouldMinify template =
     (case template_tag template of
        None \<Rightarrow> False
      | Some t \<Rightarrow> (let tag = toLowerCase t
                  in tag \<noteq> [] \<and> (str_includes tag ''html'' \<or> str_includes tag ''svg'')))"

definition defaultShouldMinifyCSS :: "Template \<Rightarrow> bool" where
  "defaultShouldMinifyCSS template =
     (case template_tag template of
        None \<Rightarrow> False
      | Some t \<Rightarrow> str_includes (toLowerCase t) ''css'')"


definition the_validation :: "('c, 'x, 'r, 'ms, 'm) Options \<Rightarrow> Validation option" where
  "the_validation options =
     (case validate options of
        NoValidation \<Rightarrow> None
      | DefaultValidation \<Rightarrow> Some defaultValidation
      | CustomValidation v \<Rightarrow> Some v)"

definition skipCSS ::
  "(('c css_option, 'x) HTMLOptions, 'c, 'r) Strategy \<Rightarrow> string \<Rightarrow> bool" where
  "skipCSS strat source = (st_minifyCSS strat \<noteq> None \<and> str_includes source ''unsafeCSS'')"

definition skipHTML :: "string \<Rightarrow> bool" where
  "skipHTML source = str_includes source ''unsafeHTML''"

definition wants_html :: "('c, 'x, 'r, 'ms, 'm) Options \<Rightarrow> string \<Rightarrow> Template \<Rightarrow> bool" where
  "wants_html options source template =
     (\<not> skipHTML source
      \<and> (case shouldMinify options of Some f \<Rightarrow> f template | None \<Rightarrow> defaultShouldMinify template))"

definition wants_css ::
  "(('c css_option, 'x) HTMLOptions, 'c, 'r) Strategy \<Rightarrow> ('c, 'x, 'r, 'ms, 'm) Options
     \<Rightarrow> string \<Rightarrow> Template \<Rightarrow> bool" where
  "wants_css strat options source template =
     (\<not> skipCSS strat source \<and> st_minifyCSS strat \<noteq> None
      \<and> (case shouldMinifyCSS options of
            Some f \<Rightarrow> f template | None \<Rightarrow> defaultShouldMinifyCSS template))"

text \<open>
  The work on one template.  \<open>overwrite_parts\<close> is the final loop over the parts,
  \<open>minify_combined\<close> the choice of the minifier.  The result is \<open>None\<close> when
  \<open>getPlaceholder\<close> does not return, an error when a step throws, the buffer
  otherwise.
\<close>

definition overwrite_parts ::
  "('ms, 'm) MagicStringLike \<Rightarrow> TemplatePart list \<Rightarrow> string list \<Rightarrow> 'ms \<Rightarrow> 'ms" where
  "overwrite_parts M parts minParts ms =
     fold (\<lambda>index ms.
             let p = parts ! index
             in if part_start p < part_end p
                then ms_overwrite M (part_start p) (part_end p)
                       (if index < length minParts then minParts ! index else []) ms
                else ms)
          [0..<length parts] ms"

definition minify_combined ::
  "(('c css_option, 'x) HTMLOptions, 'c, 'r) Strategy \<Rightarrow> ('c, 'x, 'r, 'ms, 'm) Options
     \<Rightarrow> bool \<Rightarrow> string \<Rightarrow> error + string" where
  "minify_combined strat options minCSS combined =
     (if minCSS then
        (case minifyCSS_option (minifyOptions options) of
           CssFunction f \<Rightarrow> Inr (f combined)
         | CssOff \<Rightarrow> Inr combined
         | CssOn \<Rightarrow>
             (case st_minifyCSS strat of
                Some f \<Rightarrow> f combined None | None \<Rightarrow> Inr combined)
         | CssOptions c \<Rightarrow>
             (case st_minifyCSS strat of
                Some f \<Rightarrow> f combined (Some c) | None \<Rightarrow> Inr combined))
      else st_minifyHTML strat combined (minifyOptions options))"

definition process_template ::
  "(('c css_option, 'x) HTMLOptions, 'c, 'r) Strategy \<Rightarrow> ('c, 'x, 'r, 'ms, 'm) Options
     \<Rightarrow> string \<Rightarrow> 'r \<Rightarrow> Template \<Rightarrow> 'ms \<Rightarrow> (error + 'ms) option" where
  "process_template strat options source r template ms =
     (let minHTML = wants_html options source template;
          minCSS = wants_css strat options source template
      in if \<not> (minHTML \<or> minCSS) then Some (Inr ms)
         else
           (case st_getPlaceholder strat (template_parts template) (template_tag template) r of
              None \<Rightarrow> None
            | Some placeholder \<Rightarrow>
                (case (case the_validation options of
                         Some v \<Rightarrow> v_ensurePlaceholderValid v placeholder
                       | None \<Rightarrow> Inr ()) of
                   Inl e \<Rightarrow> Some (Inl e)
                 | Inr u \<Rightarrow>
                     (let combined =
                            st_combineHTMLStrings strat (template_parts template) placeholder
                      in case minify_combined strat options minCSS combined of
                           Inl e \<Rightarrow> Some (Inl e)
                         | Inr min_text \<Rightarrow>
                             (case st_splitHTMLByPlaceholder strat min_text placeholder of
                                Inl e \<Rightarrow> Some (Inl e)
                              | Inr minParts \<Rightarrow>
                                  (case (case the_validation options of
                                           Some v \<Rightarrow>
                                             v_ensureHTMLPartsValid v (template_parts template)
                                               minParts
                                         | None \<Rightarrow> Inr ()) of
                                     Inl e \<Rightarrow> Some (Inl e)
                                   | Inr u \<Rightarrow>
                                       Some (Inr (overwrite_parts (MagicString options)
                                                    (template_parts template) minParts ms))))))))"








text \<open>
  \<open>part s off\<close>: the part with text \<open>s\<close> that starts at offset \<open>off\<close> of the source.
  \<open>eval_defs\<close>: the definitions unfolded to run the strategy on a concrete input.
\<close>

definition part :: "string \<Rightarrow> nat \<Rightarrow> TemplatePart" where
  "part s off = \<lparr>part_text = s, part_start = off, part_end = off + length s\<rparr>"

lemmas eval_defs =
  getPlaceholder_def isCss_def toLowerCase_def lower_char_def upper_letters_def lower_letters_def
  str_includes_def toHex_def hex_digit_def part_def isSelector_def isKey_def isRule_def isUnit_def
  isValue_def ends_with_before_spaces_def trim_def is_space_def is_word_def code_unit_def
  decimal.simps css_loop.simps grow.simps suffix_call_def
  selector_position_def rule_position_def unit_position_def afterCss_def beforeCss_def
  combineHTMLStrings_def splitHTMLByPlaceholder_def js_split_def endsWith_def
  indexOf_def slice_def slice_from_def split_at.simps suffix_to_prefix Let_def

text \<open>
  A toy markup minifier for the concrete runs: \<open>drop_comments\<close> deletes every
  comment, from \<open><!--\<close> to the first \<open>-->\<close> after it.
\<close>

fun after_close :: "string \<Rightarrow> string option" where
  "after_close (c # d # e # cs) =
     (if c = CHR ''-'' \<and> d = CHR ''-'' \<and> e = CHR ''>'' then Some cs
      else after_close (d # e # cs))"
| "after_close s = None"

lemma after_close_shorter [termination_simp]:
  "after_close s = Some r \<Longrightarrow> length r < length s"
  by (induction s arbitrary: r rule: after_close.induct) (auto split: if_splits)

fun drop_comments :: "string \<Rightarrow> string" where
  "drop_comments (a # b # c # d # cs) =
     (if a = CHR ''<'' \<and> b = CHR ''!'' \<and> c = CHR ''-'' \<and> d = CHR ''-'' then
        (case after_close cs of
           Some rest \<Rightarrow> drop_comments rest
         | None \<Rightarrow> a # drop_comments (b # c # d # cs))
      else a # drop_comments (b # c # d # cs))"
| "drop_comments s = s"





section \<open>Properties of the multi-token splitter\<close>

lemma first_index_occurs:
  "first_index pat s = Some i \<Longrightarrow> take (length pat) (drop i s) = pat"
proof (induction s arbitrary: i)
  case Nil
  then show ?case by (simp split: if_splits)
next
  case (Cons c cs)
  show ?case
  proof (cases "prefix pat (c # cs)")
    case True
    with Cons.prems have "i = 0" by simp
    with True show ?thesis by (auto simp: prefix_def)
  next
    case False
    with Cons.prems obtain j where "first_index pat cs = Some j" "i = Suc j"
      by auto
    with Cons.IH show ?thesis by simp
  qed
qed

lemma indexOf_found:
  assumes "indexOf html ph pos = Some index" and "pos \<le> length html"
  shows "pos \<le> index" and "index + length ph \<le> length html"
    and "take (length ph) (drop index html) = ph"
proof -
  from assms obtain i where i: "first_index ph (drop pos html) = Some i" "index = pos + i"
    by (auto simp: indexOf_def Let_def min_def)
  from i show "pos \<le> index" by simp
  from first_index_bound[OF i(1)] assms(2) i(2) show "index + length ph \<le> length html"
    by simp
  from first_index_occurs[OF i(1)] i(2) show "take (length ph) (drop index html) = ph"
    by (simp add: add.commute)
qed

lemma slice_token_rest:
  assumes "pos \<le> index" and "index + length ph \<le> length html"
    and "take (length ph) (drop index html) = ph"
  shows "slice html pos index @ ph @ drop (index + length ph) html = drop pos html"
proof -
  have "drop index html
          = take (length ph) (drop index html) @ drop (length ph) (drop index html)"
    by (rule append_take_drop_id[symmetric])
  with assms(3) have a: "drop index html = ph @ drop (index + length ph) html"
    by (simp add: add.commute)
  have "drop pos html
          = take (index - pos) (drop pos html) @ drop (index - pos) (drop pos html)"
    by (rule append_take_drop_id[symmetric])
  with assms(1) have b: "drop pos html = take (index - pos) (drop pos html) @ drop index html"
    by simp
  have "slice html pos index @ ph @ drop (index + length ph) html
          = take (index - pos) (drop pos html) @ drop index html"
    unfolding slice_def using a by simp
  with b show ?thesis by simp
qed

lemma split_scan_segments:
  assumes "split_scan html phs pos acc = Inr segs" and "pos \<le> length html"
  shows "\<exists>rest. segs = acc @ rest \<and> length rest = length phs + 1
           \<and> interleave rest phs = drop pos html"
  using assms
proof (induction phs arbitrary: pos acc)
  case Nil
  then show ?case by (auto simp: slice_from_def)
next
  case (Cons ph phs)
  from Cons.prems(1) obtain index where
    idx: "indexOf html ph pos = Some index" and
    rec: "split_scan html phs (index + length ph) (acc @ [slice html pos index]) = Inr segs"
    by (auto split: option.splits)
  note f = indexOf_found[OF idx Cons.prems(2)]
  from Cons.IH[OF rec f(2)] obtain rest where
    rest: "segs = (acc @ [slice html pos index]) @ rest" "length rest = length phs + 1"
      "interleave rest phs = drop (index + length ph) html"
    by blast
  have "interleave (slice html pos index # rest) (ph # phs) = drop pos html"
    using rest(3) slice_token_rest[OF f] by simp
  with rest(1,2) show ?case by auto
qed

text \<open>
  C10.  In multi-token mode, whenever \<open>splitHTMLByPlaceholder html tokens\<close> returns
  without throwing, the returned array has exactly \<open>length tokens + 1\<close> segments,
  and interleaving those segments with the tokens in order and concatenating
  gives back the input \<open>html\<close> exactly.
\<close>

theorem split_multi_lossless:
  assumes "splitHTMLByPlaceholder html (Multi tokens) = Inr segs"
  shows "length segs = length tokens + 1 \<and> interleave segs tokens = html"
proof -
  from assms have "split_scan html tokens 0 [] = Inr segs"
    by (simp add: splitHTMLByPlaceholder_def)
  from split_scan_segments[OF this] show ?thesis by auto
qed

theorem split_multi_lossless_witness:
  "splitHTMLByPlaceholder ''a{b:var(--t);c:9px}'' (Multi [''var(--t)'', ''9''])
     = Inr [''a{b:'', '';c:'', ''px}'']
   \<and> length [''a{b:'', '';c:'', ''px}''] = length [''var(--t)'', ''9''] + 1
   \<and> interleave [''a{b:'', '';c:'', ''px}''] [''var(--t)'', ''9''] = ''a{b:var(--t);c:9px}''"
proof -
  have run: "splitHTMLByPlaceholder ''a{b:var(--t);c:9px}'' (Multi [''var(--t)'', ''9''])
     = Inr [''a{b:'', '';c:'', ''px}'']"
    by (simp add: splitHTMLByPlaceholder_def indexOf_def slice_def slice_from_def)
  from split_multi_lossless[OF run] run show ?thesis by simp
qed

lemma occurs_at_0: "occurs_at s pat 0 = prefix pat s"
proof
  assume "occurs_at s pat 0"
  then have "take (length pat) s = pat" by (simp add: occurs_at_def)
  then show "prefix pat s" by (metis take_is_prefix)
next
  assume "prefix pat s"
  then obtain zs where "s = pat @ zs" by (auto simp: prefix_def)
  then show "occurs_at s pat 0" by (simp add: occurs_at_def)
qed

lemma occurs_at_Suc: "occurs_at (c # cs) pat (Suc k) = occurs_at cs pat k"
  by (simp add: occurs_at_def)

lemma occurs_at_Nil: "occurs_at [] pat k = (pat = [] \<and> k = 0)"
  by (auto simp: occurs_at_def)

lemma first_index_Some_iff:
  "first_index pat s = Some i \<longleftrightarrow> occurs_at s pat i \<and> (\<forall>k<i. \<not> occurs_at s pat k)"
proof (induction s arbitrary: i)
  case Nil
  show ?case by (auto simp: occurs_at_Nil)
next
  case (Cons c cs)
  show ?case
  proof (cases "prefix pat (c # cs)")
    case True
    then have o: "occurs_at (c # cs) pat 0" by (simp add: occurs_at_0)
    show ?thesis
    proof
      assume "first_index pat (c # cs) = Some i"
      with True have "i = 0" by simp
      with o show "occurs_at (c # cs) pat i \<and> (\<forall>k<i. \<not> occurs_at (c # cs) pat k)" by simp
    next
      assume a: "occurs_at (c # cs) pat i \<and> (\<forall>k<i. \<not> occurs_at (c # cs) pat k)"
      with o have "i = 0" by (cases i) auto
      with True show "first_index pat (c # cs) = Some i" by simp
    qed
  next
    case False
    then have no: "\<not> occurs_at (c # cs) pat 0" by (simp add: occurs_at_0)
    show ?thesis
    proof
      assume "first_index pat (c # cs) = Some i"
      with False obtain j where j: "first_index pat cs = Some j" "i = Suc j" by auto
      with Cons.IH[of j] have oc: "occurs_at cs pat j" and least: "\<forall>k<j. \<not> occurs_at cs pat k"
        by auto
      have "\<forall>k<i. \<not> occurs_at (c # cs) pat k"
      proof (intro allI impI)
        fix k assume "k < i"
        show "\<not> occurs_at (c # cs) pat k"
        proof (cases k)
          case 0
          with no show ?thesis by simp
        next
          case (Suc k')
          with \<open>k < i\<close> j(2) least show ?thesis by (simp add: occurs_at_Suc)
        qed
      qed
      with oc j(2) show "occurs_at (c # cs) pat i \<and> (\<forall>k<i. \<not> occurs_at (c # cs) pat k)"
        by (simp add: occurs_at_Suc)
    next
      assume a: "occurs_at (c # cs) pat i \<and> (\<forall>k<i. \<not> occurs_at (c # cs) pat k)"
      with no obtain j where j: "i = Suc j" by (cases i) auto
      from a j have "occurs_at cs pat j" by (simp add: occurs_at_Suc)
      moreover have "\<forall>k<j. \<not> occurs_at cs pat k"
      proof (intro allI impI)
        fix k assume "k < j"
        with j have "Suc k < i" by simp
        with a have "\<not> occurs_at (c # cs) pat (Suc k)" by blast
        then show "\<not> occurs_at cs pat k" by (simp add: occurs_at_Suc)
      qed
      ultimately have "first_index pat cs = Some j" using Cons.IH[of j] by simp
      with False j show "first_index pat (c # cs) = Some i" by simp
    qed
  qed
qed

lemma first_index_None_iff:
  "first_index pat s = None \<longleftrightarrow> (\<forall>k. \<not> occurs_at s pat k)"
proof (induction s)
  case Nil
  show ?case by (auto simp: occurs_at_Nil)
next
  case (Cons c cs)
  show ?case
  proof (cases "prefix pat (c # cs)")
    case True
    then have "occurs_at (c # cs) pat 0" by (simp add: occurs_at_0)
    with True show ?thesis by auto
  next
    case False
    then have no: "\<not> occurs_at (c # cs) pat 0" by (simp add: occurs_at_0)
    have "(\<forall>k. \<not> occurs_at (c # cs) pat k) \<longleftrightarrow> (\<forall>k. \<not> occurs_at cs pat k)"
    proof
      assume a: "\<forall>k. \<not> occurs_at (c # cs) pat k"
      show "\<forall>k. \<not> occurs_at cs pat k"
      proof
        fix k from a have "\<not> occurs_at (c # cs) pat (Suc k)" by blast
        then show "\<not> occurs_at cs pat k" by (simp add: occurs_at_Suc)
      qed
    next
      assume a: "\<forall>k. \<not> occurs_at cs pat k"
      show "\<forall>k. \<not> occurs_at (c # cs) pat k"
      proof
        fix k show "\<not> occurs_at (c # cs) pat k"
          using no a by (cases k) (simp_all add: occurs_at_Suc)
      qed
    qed
    with False Cons.IH show ?thesis by simp
  qed
qed

lemma occurs_at_drop:
  "pos \<le> length html \<Longrightarrow> occurs_at (drop pos html) tok i = occurs_at html tok (pos + i)"
  by (auto simp: occurs_at_def add.commute)

lemma indexOf_Some_iff:
  assumes "pos \<le> length html"
  shows "indexOf html tok pos = Some j \<longleftrightarrow> next_occurrence html tok pos j"
proof
  assume "indexOf html tok pos = Some j"
  with assms obtain i where i: "first_index tok (drop pos html) = Some i" "j = pos + i"
    by (auto simp: indexOf_def Let_def min_def)
  from i(1) have oc: "occurs_at (drop pos html) tok i"
    and least: "\<forall>k<i. \<not> occurs_at (drop pos html) tok k"
    by (simp_all add: first_index_Some_iff)
  have "\<forall>m\<in>{pos..<j}. \<not> occurs_at html tok m"
  proof
    fix m assume "m \<in> {pos..<j}"
    then have "m - pos < i" "m = pos + (m - pos)" using i(2) by auto
    with least assms show "\<not> occurs_at html tok m"
      by (metis occurs_at_drop)
  qed
  with oc i(2) assms show "next_occurrence html tok pos j"
    by (simp add: next_occurrence_def occurs_at_drop)
next
  assume n: "next_occurrence html tok pos j"
  then have pj: "pos \<le> j" by (simp add: next_occurrence_def)
  then have j: "j = pos + (j - pos)" by simp
  from n have "occurs_at html tok (pos + (j - pos))" using pj by (simp add: next_occurrence_def)
  then have oc: "occurs_at (drop pos html) tok (j - pos)"
    using assms by (simp add: occurs_at_drop)
  have "\<forall>k<j - pos. \<not> occurs_at (drop pos html) tok k"
  proof (intro allI impI)
    fix k assume "k < j - pos"
    then have "pos + k \<in> {pos..<j}" by auto
    with n have "\<not> occurs_at html tok (pos + k)" by (simp add: next_occurrence_def)
    then show "\<not> occurs_at (drop pos html) tok k" using assms by (simp add: occurs_at_drop)
  qed
  with oc have "first_index tok (drop pos html) = Some (j - pos)"
    by (simp add: first_index_Some_iff)
  with assms pj show "indexOf html tok pos = Some j"
    by (simp add: indexOf_def Let_def min_def)
qed

lemma indexOf_None_iff:
  assumes "pos \<le> length html"
  shows "indexOf html tok pos = None \<longleftrightarrow> \<not> occurs_from html tok pos"
proof -
  have "indexOf html tok pos = None \<longleftrightarrow> (\<forall>k. \<not> occurs_at (drop pos html) tok k)"
    using assms by (simp add: indexOf_def Let_def min_def first_index_None_iff)
  also have "\<dots> \<longleftrightarrow> (\<forall>k. \<not> occurs_at html tok (pos + k))"
    using assms by (simp add: occurs_at_drop)
  also have "\<dots> \<longleftrightarrow> \<not> occurs_from html tok pos"
  proof
    assume a: "\<forall>k. \<not> occurs_at html tok (pos + k)"
    show "\<not> occurs_from html tok pos"
    proof
      assume "occurs_from html tok pos"
      then obtain j where "pos \<le> j" "occurs_at html tok j" by (auto simp: occurs_from_def)
      then have "occurs_at html tok (pos + (j - pos))" by simp
      with a show False by blast
    qed
  next
    assume a: "\<not> occurs_from html tok pos"
    show "\<forall>k. \<not> occurs_at html tok (pos + k)"
    proof
      fix k
      show "\<not> occurs_at html tok (pos + k)"
      proof
        assume o: "occurs_at html tok (pos + k)"
        then have "pos + k \<le> length html" by (simp add: occurs_at_def)
        with o have "occurs_from html tok pos" by (auto simp: occurs_from_def)
        with a show False by simp
      qed
    qed
  qed
  finally show ?thesis .
qed


lemma located_length: "located html pos ts idxs \<Longrightarrow> length idxs = length ts"
  by (induction html pos ts idxs rule: located.induct) auto

lemma next_occurrence_bound:
  "next_occurrence html t pos i \<Longrightarrow> i + length t \<le> length html"
  by (simp add: next_occurrence_def occurs_at_def)

lemma split_scan_returns_iff:
  assumes "pos \<le> length html"
  shows "split_scan html toks pos acc = Inr segs
     \<longleftrightarrow> (\<exists>idxs. located html pos toks idxs \<and> segs = acc @ segments html pos toks idxs)"
  using assms
proof (induction toks arbitrary: pos acc)
  case Nil
  show ?case
  proof
    assume "split_scan html [] pos acc = Inr segs"
    then have "located html pos [] [] \<and> segs = acc @ segments html pos [] []" by auto
    then show "\<exists>idxs. located html pos [] idxs \<and> segs = acc @ segments html pos [] idxs" by blast
  next
    assume "\<exists>idxs. located html pos [] idxs \<and> segs = acc @ segments html pos [] idxs"
    then obtain idxs where h: "located html pos [] idxs" "segs = acc @ segments html pos [] idxs"
      by blast
    from h(1) have "idxs = []" by (cases idxs) auto
    with h(2) show "split_scan html [] pos acc = Inr segs" by simp
  qed
next
  case (Cons t ts)
  show ?case
  proof
    assume run: "split_scan html (t # ts) pos acc = Inr segs"
    then obtain i where i: "indexOf html t pos = Some i"
      and rec: "split_scan html ts (i + length t) (acc @ [slice html pos i]) = Inr segs"
      by (auto split: option.splits)
    from i Cons.prems have n: "next_occurrence html t pos i" by (simp add: indexOf_Some_iff)
    from Cons.IH[OF next_occurrence_bound[OF n]] rec obtain js where
      js: "located html (i + length t) ts js"
        "segs = (acc @ [slice html pos i]) @ segments html (i + length t) ts js"
      by blast
    from n js have "located html pos (t # ts) (i # js)
        \<and> segs = acc @ segments html pos (t # ts) (i # js)" by simp
    then show "\<exists>idxs. located html pos (t # ts) idxs \<and> segs = acc @ segments html pos (t # ts) idxs"
      by blast
  next
    assume "\<exists>idxs. located html pos (t # ts) idxs \<and> segs = acc @ segments html pos (t # ts) idxs"
    then obtain idxs where h: "located html pos (t # ts) idxs"
      "segs = acc @ segments html pos (t # ts) idxs" by blast
    from h(1) obtain i js where eq: "idxs = i # js" by (cases idxs) auto
    with h have n: "next_occurrence html t pos i" and l: "located html (i + length t) ts js"
      and s: "segs = (acc @ [slice html pos i]) @ segments html (i + length t) ts js"
      by auto
    from n Cons.prems have i: "indexOf html t pos = Some i" by (simp add: indexOf_Some_iff)
    from Cons.IH[OF next_occurrence_bound[OF n]] l s
    have "split_scan html ts (i + length t) (acc @ [slice html pos i]) = Inr segs" by blast
    with i show "split_scan html (t # ts) pos acc = Inr segs" by simp
  qed
qed

lemma split_scan_throws_iff:
  assumes "pos \<le> length html"
  shows "split_scan html toks pos acc = Inl e
     \<longleftrightarrow> (\<exists>k<length toks. \<exists>idxs. located html pos (take k toks) idxs
            \<and> \<not> occurs_from html (toks ! k) (cursor pos (take k toks) idxs)
            \<and> e = PlaceholderNotFound (toks ! k) html)"
  using assms
proof (induction toks arbitrary: pos acc)
  case Nil
  show ?case by simp
next
  case (Cons t ts)
  show ?case
  proof (cases "indexOf html t pos")
    case None
    with Cons.prems have no: "\<not> occurs_from html t pos" by (simp add: indexOf_None_iff)
    show ?thesis
    proof
      assume "split_scan html (t # ts) pos acc = Inl e"
      with None have "e = PlaceholderNotFound t html" by simp
      with no have "0 < length (t # ts) \<and> located html pos (take 0 (t # ts)) []
            \<and> \<not> occurs_from html ((t # ts) ! 0) (cursor pos (take 0 (t # ts)) [])
            \<and> e = PlaceholderNotFound ((t # ts) ! 0) html" by simp
      then show "\<exists>k<length (t # ts). \<exists>idxs. located html pos (take k (t # ts)) idxs
            \<and> \<not> occurs_from html ((t # ts) ! k) (cursor pos (take k (t # ts)) idxs)
            \<and> e = PlaceholderNotFound ((t # ts) ! k) html" by blast
    next
      assume "\<exists>k<length (t # ts). \<exists>idxs. located html pos (take k (t # ts)) idxs
            \<and> \<not> occurs_from html ((t # ts) ! k) (cursor pos (take k (t # ts)) idxs)
            \<and> e = PlaceholderNotFound ((t # ts) ! k) html"
      then obtain k idxs where k: "k < length (t # ts)"
        "located html pos (take k (t # ts)) idxs"
        "e = PlaceholderNotFound ((t # ts) ! k) html" by blast
      have "k = 0"
      proof (cases k)
        case 0 then show ?thesis .
      next
        case (Suc k')
        with k(2) obtain i js where "idxs = i # js" "next_occurrence html t pos i"
          by (cases idxs) auto
        with Cons.prems have "indexOf html t pos = Some i" by (simp add: indexOf_Some_iff)
        with None show ?thesis by simp
      qed
      with k(3) None show "split_scan html (t # ts) pos acc = Inl e" by simp
    qed
  next
    case (Some i)
    with Cons.prems have n: "next_occurrence html t pos i" by (simp add: indexOf_Some_iff)
    then have oc: "occurs_from html t pos"
      by (auto simp: next_occurrence_def occurs_from_def occurs_at_def)
    note IH = Cons.IH[OF next_occurrence_bound[OF n], of "acc @ [slice html pos i]"]
    show ?thesis
    proof
      assume "split_scan html (t # ts) pos acc = Inl e"
      with Some have "split_scan html ts (i + length t) (acc @ [slice html pos i]) = Inl e"
        by simp
      with IH obtain k js where k: "k < length ts"
        "located html (i + length t) (take k ts) js"
        "\<not> occurs_from html (ts ! k) (cursor (i + length t) (take k ts) js)"
        "e = PlaceholderNotFound (ts ! k) html" by blast
      with n have "Suc k < length (t # ts) \<and> located html pos (take (Suc k) (t # ts)) (i # js)
            \<and> \<not> occurs_from html ((t # ts) ! Suc k) (cursor pos (take (Suc k) (t # ts)) (i # js))
            \<and> e = PlaceholderNotFound ((t # ts) ! Suc k) html" by simp
      then show "\<exists>k<length (t # ts). \<exists>idxs. located html pos (take k (t # ts)) idxs
            \<and> \<not> occurs_from html ((t # ts) ! k) (cursor pos (take k (t # ts)) idxs)
            \<and> e = PlaceholderNotFound ((t # ts) ! k) html" by blast
    next
      assume "\<exists>k<length (t # ts). \<exists>idxs. located html pos (take k (t # ts)) idxs
            \<and> \<not> occurs_from html ((t # ts) ! k) (cursor pos (take k (t # ts)) idxs)
            \<and> e = PlaceholderNotFound ((t # ts) ! k) html"
      then obtain k idxs where k: "k < length (t # ts)"
        "located html pos (take k (t # ts)) idxs"
        "\<not> occurs_from html ((t # ts) ! k) (cursor pos (take k (t # ts)) idxs)"
        "e = PlaceholderNotFound ((t # ts) ! k) html" by blast
      from k(3) oc obtain k' where k': "k = Suc k'" by (cases k; cases idxs) auto
      with k(2) obtain i' js where eq: "idxs = i' # js" "next_occurrence html t pos i'"
        "located html (i' + length t) (take k' ts) js"
        by (cases idxs) auto
      from eq(2) Cons.prems have "indexOf html t pos = Some i'" by (simp add: indexOf_Some_iff)
      with Some have "i' = i" by simp
      with k k' eq have "k' < length ts \<and> located html (i + length t) (take k' ts) js
          \<and> \<not> occurs_from html (ts ! k') (cursor (i + length t) (take k' ts) js)
          \<and> e = PlaceholderNotFound (ts ! k') html" by simp
      with IH have "split_scan html ts (i + length t) (acc @ [slice html pos i]) = Inl e"
        by blast
      with Some show "split_scan html (t # ts) pos acc = Inl e" by simp
    qed
  qed
qed


text \<open>
  C7.  In multi-token mode \<open>splitHTMLByPlaceholder\<close> scans strictly left to right:
  it returns exactly when every token, in order, has a next occurrence starting
  from the cursor left by the previous token (and then the segments are the text
  between those occurrences), and it throws if and only if some token of the
  sequence, the earlier ones having been located that way, has no occurrence at
  or after the cursor.
\<close>

theorem split_multi_scan:
  "(splitHTMLByPlaceholder html (Multi toks) = Inr segs
      \<longleftrightarrow> (\<exists>idxs. located html 0 toks idxs \<and> segs = segments html 0 toks idxs))
   \<and> ((\<exists>e. splitHTMLByPlaceholder html (Multi toks) = Inl e)
      \<longleftrightarrow> (\<exists>k<length toks. \<exists>idxs. located html 0 (take k toks) idxs
             \<and> \<not> occurs_from html (toks ! k) (cursor 0 (take k toks) idxs)))"
proof
  show "splitHTMLByPlaceholder html (Multi toks) = Inr segs
      \<longleftrightarrow> (\<exists>idxs. located html 0 toks idxs \<and> segs = segments html 0 toks idxs)"
    using split_scan_returns_iff[of 0 html toks "[]" segs]
    by (simp add: splitHTMLByPlaceholder_def)
next
  have "\<And>e. splitHTMLByPlaceholder html (Multi toks) = Inl e
     \<longleftrightarrow> (\<exists>k<length toks. \<exists>idxs. located html 0 (take k toks) idxs
            \<and> \<not> occurs_from html (toks ! k) (cursor 0 (take k toks) idxs)
            \<and> e = PlaceholderNotFound (toks ! k) html)"
    using split_scan_throws_iff[of 0 html toks "[]"]
    by (simp add: splitHTMLByPlaceholder_def)
  then show "(\<exists>e. splitHTMLByPlaceholder html (Multi toks) = Inl e)
      \<longleftrightarrow> (\<exists>k<length toks. \<exists>idxs. located html 0 (take k toks) idxs
             \<and> \<not> occurs_from html (toks ! k) (cursor 0 (take k toks) idxs))"
    by blast
qed

theorem split_multi_scan_witness:
  "splitHTMLByPlaceholder ''a{b:9px;c:var(--t)}'' (Multi [''var(--t)'', ''9''])
     = Inl (PlaceholderNotFound ''9'' ''a{b:9px;c:var(--t)}'')
   \<and> (\<exists>k<length [''var(--t)'', ''9'']. \<exists>idxs.
        located ''a{b:9px;c:var(--t)}'' 0 (take k [''var(--t)'', ''9'']) idxs
        \<and> \<not> occurs_from ''a{b:9px;c:var(--t)}'' ([''var(--t)'', ''9''] ! k)
              (cursor 0 (take k [''var(--t)'', ''9'']) idxs))
   \<and> located ''a{b:var(--t);c:9px}'' 0 [''var(--t)'', ''9''] [4, 15]
   \<and> splitHTMLByPlaceholder ''a{b:var(--t);c:9px}'' (Multi [''var(--t)'', ''9''])
        = Inr [''a{b:'', '';c:'', ''px}'']"
proof -
  have run: "splitHTMLByPlaceholder ''a{b:9px;c:var(--t)}'' (Multi [''var(--t)'', ''9''])
     = Inl (PlaceholderNotFound ''9'' ''a{b:9px;c:var(--t)}'')"
    by (simp add: splitHTMLByPlaceholder_def indexOf_def slice_def slice_from_def)
  then have "\<exists>e. splitHTMLByPlaceholder ''a{b:9px;c:var(--t)}'' (Multi [''var(--t)'', ''9''])
     = Inl e" by blast
  with split_multi_scan[of "''a{b:9px;c:var(--t)}''" "[''var(--t)'', ''9'']"]
  have missing: "\<exists>k<length [''var(--t)'', ''9'']. \<exists>idxs.
        located ''a{b:9px;c:var(--t)}'' 0 (take k [''var(--t)'', ''9'']) idxs
        \<and> \<not> occurs_from ''a{b:9px;c:var(--t)}'' ([''var(--t)'', ''9''] ! k)
              (cursor 0 (take k [''var(--t)'', ''9'']) idxs)"
    by blast
  have found: "located ''a{b:var(--t);c:9px}'' 0 [''var(--t)'', ''9''] [4, 15]"
    by code_simp
  have segs: "segments ''a{b:var(--t);c:9px}'' 0 [''var(--t)'', ''9''] [4, 15]
      = [''a{b:'', '';c:'', ''px}'']"
    by (simp add: slice_def slice_from_def)
  from found segs
    split_multi_scan[of "''a{b:var(--t);c:9px}''" "[''var(--t)'', ''9'']"
      "[''a{b:'', '';c:'', ''px}'']"]
  have ok: "splitHTMLByPlaceholder ''a{b:var(--t);c:9px}'' (Multi [''var(--t)'', ''9''])
        = Inr [''a{b:'', '';c:'', ''px}'']"
    by metis
  from run missing found ok show ?thesis by blast
qed

section \<open>Properties of the placeholder generator\<close>

lemma decimal_nonempty: "decimal n \<noteq> []"
  by (subst decimal.simps) simp

lemma draw_num_nonempty: "draw_num before draws = Some (num, draws') \<Longrightarrow> num \<noteq> []"
  by (induction draws) (auto simp: Let_def decimal_nonempty split: if_splits)

lemma draw_num_returns:
  "\<exists>n\<in>set draws. \<not> str_includes before (decimal n) \<Longrightarrow> draw_num before draws \<noteq> None"
  by (induction draws) (auto simp: Let_def)

lemma css_loop_done:
  "\<not> i < length parts \<Longrightarrow> css_loop random parts i acc draws = Some (Multi acc)"
  by (subst css_loop.simps) simp

lemma css_loop_selector:
  "i < length parts \<Longrightarrow> selector_position parts i \<Longrightarrow>
   css_loop random parts i acc draws = css_loop random parts (i + 1) (acc @ [''#'' @ random]) draws"
  by (subst css_loop.simps) (simp add: selector_position_def afterCss_def Let_def)

lemma css_loop_rule:
  "i < length parts \<Longrightarrow> rule_position parts i \<Longrightarrow>
   css_loop random parts i acc draws = Some (Single (''@'' @ random @ ''();''))"
  by (subst css_loop.simps) (simp add: rule_position_def afterCss_def beforeCss_def Let_def)

lemma css_loop_step:
  assumes "i < length parts" and "\<not> rule_position parts i"
    and "css_loop random parts i acc draws = Some ph"
  shows "\<exists>tok draws'. css_loop random parts (i + 1) (acc @ [tok]) draws' = Some ph
           \<and> (selector_position parts i \<longrightarrow> tok = ''#'' @ random) \<and> tok \<noteq> []"
proof -
  from assms(3) have run:
    "(let beforeFull = part_text (parts ! (i - 1));
          beforeCss = strip_comments beforeFull;
          afterFull = part_text (parts ! i);
          afterCss = strip_comments afterFull
      in if isSelector afterCss then
           css_loop random parts (i + 1) (acc @ [''#'' @ random]) draws
         else if isKey afterCss then
           css_loop random parts (i + 1) (acc @ [''--'' @ random]) draws
         else if isRule beforeCss then
           Some (Single (''@'' @ random @ ''();''))
         else if isUnit afterCss then
           (case draw_num beforeFull draws of
              None \<Rightarrow> None
            | Some (num, draws') \<Rightarrow> css_loop random parts (i + 1) (acc @ [num]) draws')
         else if isValue beforeCss then
           css_loop random parts (i + 1) (acc @ [''var(--'' @ random @ '')'']) draws
         else
           css_loop random parts (i + 1) (acc @ [''var(--'' @ random @ '')'']) draws) = Some ph"
    using assms(1) by (subst (asm) css_loop.simps) simp
  show ?thesis
  proof (cases "isSelector (afterCss parts i)")
    case True
    with run have "css_loop random parts (i + 1) (acc @ [''#'' @ random]) draws = Some ph"
      by (simp add: afterCss_def Let_def)
    moreover have "''#'' @ random \<noteq> []" by simp
    ultimately show ?thesis by blast
  next
    case notsel: False
    then have ns: "\<not> selector_position parts i" by (simp add: selector_position_def)
    show ?thesis
    proof (cases "isKey (afterCss parts i)")
      case True
      with run notsel have "css_loop random parts (i + 1) (acc @ [''--'' @ random]) draws = Some ph"
        by (simp add: afterCss_def Let_def)
      moreover have "''--'' @ random \<noteq> []" by simp
      ultimately show ?thesis using ns by blast
    next
      case notkey: False
      with notsel assms(2) have notrule: "\<not> isRule (beforeCss parts i)"
        by (simp add: rule_position_def)
      show ?thesis
      proof (cases "isUnit (afterCss parts i)")
        case True
        with run notsel notkey notrule obtain num draws' where
          "draw_num (part_text (parts ! (i - 1))) draws = Some (num, draws')"
          "css_loop random parts (i + 1) (acc @ [num]) draws' = Some ph"
          by (auto simp: afterCss_def beforeCss_def Let_def split: option.splits)
        with ns draw_num_nonempty show ?thesis by blast
      next
        case False
        with run notsel notkey notrule
        have "css_loop random parts (i + 1) (acc @ [''var(--'' @ random @ '')'']) draws = Some ph"
          by (simp add: afterCss_def beforeCss_def Let_def split: if_splits)
        moreover have "''var(--'' @ random @ '')'' \<noteq> []" by simp
        ultimately show ?thesis using ns by blast
      qed
    qed
  qed
qed







text \<open>
  What does hold of the generated placeholder.  In markup mode the token is
  non-empty, occurs in no part's text and does not depend on the random inputs;
  in both modes every token is non-empty.
\<close>

lemma str_includes_sublist: "str_includes s pat \<longleftrightarrow> sublist pat s"
proof
  assume "str_includes s pat"
  then obtain i where i: "first_index pat s = Some i" by (auto simp: str_includes_def)
  from first_index_occurs[OF i] have "drop i s = pat @ drop (length pat) (drop i s)"
    by (metis append_take_drop_id)
  then have "s = take i s @ pat @ drop (length pat) (drop i s)"
    by (metis append_take_drop_id)
  then show "sublist pat s" unfolding sublist_def by blast
next
  assume "sublist pat s"
  then obtain ps ss where s: "s = ps @ pat @ ss" by (auto simp: sublist_def)
  then have "occurs_at s pat (length ps)" by (simp add: occurs_at_def)
  then have "first_index pat s \<noteq> None" unfolding first_index_None_iff by blast
  then show "str_includes s pat" by (simp add: str_includes_def)
qed

lemma grow_fresh:
  "\<not> list_ex (\<lambda>part. str_includes (part_text part) (grow parts p @ suffix_call)) parts"
proof (induction parts p rule: grow.induct)
  case (1 parts placeholder)
  show ?case
  proof (cases "list_ex (\<lambda>part. str_includes (part_text part) (placeholder @ suffix_call)) parts")
    case True
    with "1.IH" show ?thesis by (subst grow.simps) simp
  next
    case False
    then show ?thesis by (subst grow.simps) simp
  qed
qed

lemma markup_placeholder_fresh:
  assumes "\<not> isCss tag"
  shows "\<exists>tok. getPlaceholder parts tag bytes draws = Some (Single tok) \<and> tok \<noteq> []
           \<and> (\<forall>p\<in>set parts. \<not> sublist tok (part_text p))"
proof -
  let ?tok = "grow parts ''@TEMPLATE_EXPRESSION'' @ suffix_call"
  have "getPlaceholder parts tag bytes draws = Some (Single ?tok)"
    using assms by (simp add: getPlaceholder_def)
  moreover have "?tok \<noteq> []" by (simp add: suffix_call_def)
  moreover have "\<forall>p\<in>set parts. \<not> sublist ?tok (part_text p)"
    using grow_fresh[of parts "''@TEMPLATE_EXPRESSION''"]
    by (simp add: list_ex_iff str_includes_sublist)
  ultimately show ?thesis by blast
qed

lemma markup_placeholder_deterministic:
  "\<not> isCss tag \<Longrightarrow>
   getPlaceholder parts tag bytes draws = getPlaceholder parts tag bytes' draws'"
  by (simp add: getPlaceholder_def)

lemma css_loop_nonempty:
  assumes "css_loop random parts i acc draws = Some ph" and "[] \<notin> set acc"
  shows "case ph of Single t \<Rightarrow> t \<noteq> [] | Multi ts \<Rightarrow> [] \<notin> set ts"
  using assms
proof (induction "length parts - i" arbitrary: i acc draws)
  case 0
  then have "\<not> i < length parts" by simp
  with "0.prems" show ?case by (auto simp: css_loop_done)
next
  case (Suc n)
  then have lt: "i < length parts" by simp
  from Suc.hyps(2) have n: "n = length parts - (i + 1)" by simp
  show ?case
  proof (cases "rule_position parts i")
    case True
    with lt Suc.prems(1) show ?thesis by (auto simp: css_loop_rule)
  next
    case False
    from css_loop_step[OF lt False Suc.prems(1)] obtain tok draws' where
      step: "css_loop random parts (i + 1) (acc @ [tok]) draws' = Some ph" and "tok \<noteq> []"
      by blast
    with Suc.prems(2) have "[] \<notin> set (acc @ [tok])" by auto
    from Suc.hyps(1)[OF n step this] show ?thesis .
  qed
qed

lemma placeholder_nonempty:
  assumes "getPlaceholder parts tag bytes draws = Some ph"
  shows "case ph of Single t \<Rightarrow> t \<noteq> [] | Multi ts \<Rightarrow> [] \<notin> set ts"
proof (cases "isCss tag")
  case True
  with assms have "css_loop (''tmp_'' @ toHex bytes) parts 1 [] draws = Some ph"
    by (simp add: getPlaceholder_def)
  from css_loop_nonempty[OF this] show ?thesis by simp
next
  case False
  with assms show ?thesis by (auto simp: getPlaceholder_def suffix_call_def)
qed

text \<open>
  The round trip in multi-token mode.  \<open>combineHTMLStrings\<close> interleaves the texts
  with the tokens; on a string that holds the tokens in order the scan finds every
  token and returns one segment more than there are tokens; so splitting the
  combined string gives as many segments as there are parts.
\<close>

lemma combine_texts_interleave:
  "concat (map (\<lambda>i. xs ! i @ (if i < length ts then ts ! i else [])) [0..<length xs])
     = interleave xs ts"
proof (induction xs ts rule: interleave.induct)
  case (1 ts)
  show ?case by simp
next
  case (2 s ss)
  have "concat (map (\<lambda>i. (s # ss) ! i @ (if i < length ([] :: string list) then [] ! i else []))
                  [0..<length (s # ss)])
        = concat (map (\<lambda>i. (s # ss) ! i) [0..<length (s # ss)])"
    by simp
  also have "\<dots> = concat (s # ss)" by (simp only: map_nth)
  finally show ?case by simp
next
  case (3 s ss t ts)
  have "map (\<lambda>i. (s # ss) ! i @ (if i < length (t # ts) then (t # ts) ! i else []))
          [0..<length (s # ss)]
        = (s @ t) # map (\<lambda>i. ss ! i @ (if i < length ts then ts ! i else [])) [0..<length ss]"
    by (simp add: map_upt_Suc del: upt_Suc)
  with 3 show ?case by simp
qed

lemma combine_multi_interleave:
  "combineHTMLStrings parts (Multi toks) = interleave (map part_text parts) toks"
proof -
  have "combineHTMLStrings parts (Multi toks)
      = concat (map (\<lambda>i. map part_text parts ! i @ (if i < length toks then toks ! i else []))
                  [0..<length (map part_text parts)])"
  proof -
    have "map (\<lambda>i. part_text (parts ! i) @ (if i < length toks then toks ! i else []))
            [0..<length parts]
        = map (\<lambda>i. map part_text parts ! i @ (if i < length toks then toks ! i else []))
            [0..<length parts]"
      by (rule map_cong) simp_all
    then show ?thesis by (simp only: combineHTMLStrings_def placeholder.case length_map)
  qed
  then show ?thesis by (simp only: combine_texts_interleave)
qed

lemma interleave_prepend:
  "x @ interleave (s # ss) ts = interleave ((x @ s) # ss) ts"
  by (cases ts) simp_all

lemma split_scan_succeeds:
  assumes "drop pos html = interleave segs toks" and "length segs = length toks + 1"
    and "pos \<le> length html"
  shows "\<exists>r. split_scan html toks pos acc = Inr r"
  using assms
proof (induction toks arbitrary: pos segs acc)
  case Nil
  show ?case by simp
next
  case (Cons t ts)
  from Cons.prems(2) obtain s0 s1 rest where segs: "segs = s0 # s1 # rest"
    by (cases segs; cases "tl segs") auto
  with Cons.prems(1) have d: "drop pos html = s0 @ t @ interleave (s1 # rest) ts" by simp
  let ?k = "pos + length s0"
  have dk: "drop ?k html = t @ interleave (s1 # rest) ts"
  proof -
    have "drop ?k html = drop (length s0) (drop pos html)" by (simp add: add.commute)
    with d show ?thesis by simp
  qed
  have len: "?k + length t \<le> length html"
  proof -
    have "length (drop pos html) = length s0 + length (drop ?k html)"
      using d dk by simp
    moreover have "length (drop ?k html) \<ge> length t" using dk by simp
    ultimately show ?thesis using Cons.prems(3) by simp
  qed
  from dk len have occ: "occurs_at html t ?k" by (simp add: occurs_at_def)
  with len have "occurs_from html t pos" by (auto simp: occurs_from_def)
  with Cons.prems(3) obtain j where j: "indexOf html t pos = Some j"
    using indexOf_None_iff[of pos html t] by (cases "indexOf html t pos") auto
  with Cons.prems(3) have n: "next_occurrence html t pos j" by (simp add: indexOf_Some_iff)
  have jk: "j \<le> ?k"
  proof (rule ccontr)
    assume "\<not> j \<le> ?k"
    then have "?k \<in> {pos..<j}" by simp
    with n occ show False by (auto simp: next_occurrence_def)
  qed
  let ?e = "j + length t"
  from n have e_le: "?e \<le> length html" by (rule next_occurrence_bound)
  have dke: "drop (?k + length t) html = interleave (s1 # rest) ts"
  proof -
    have "drop (?k + length t) html = drop (length t) (drop ?k html)" by (simp add: add.commute)
    with dk show ?thesis by simp
  qed
  have "drop ?e html = take (?k - j) (drop ?e html) @ drop (?k - j) (drop ?e html)"
    by (rule append_take_drop_id[symmetric])
  moreover have "drop (?k - j) (drop ?e html) = drop (?k + length t) html"
    using jk by (simp add: add.assoc)
  ultimately have "drop ?e html = take (?k - j) (drop ?e html) @ interleave (s1 # rest) ts"
    using dke by simp
  then have "drop ?e html = interleave ((take (?k - j) (drop ?e html) @ s1) # rest) ts"
    by (simp only: interleave_prepend)
  moreover have "length ((take (?k - j) (drop ?e html) @ s1) # rest) = length ts + 1"
    using Cons.prems(2) segs by simp
  ultimately obtain r where
    "split_scan html ts ?e (acc @ [slice html pos j]) = Inr r"
    using Cons.IH[OF _ _ e_le] by blast
  with j show ?case by simp
qed

lemma split_multi_tokens_in_order:
  assumes "html = interleave segs toks" and "length segs = length toks + 1"
  shows "\<exists>r. splitHTMLByPlaceholder html (Multi toks) = Inr r \<and> length r = length segs"
proof -
  from assms have "drop 0 html = interleave segs toks" by simp
  from split_scan_succeeds[OF this assms(2)] obtain r where
    r: "split_scan html toks 0 [] = Inr r" by auto
  then have run: "splitHTMLByPlaceholder html (Multi toks) = Inr r"
    by (simp add: splitHTMLByPlaceholder_def)
  from split_scan_segments[OF r] assms(2) have "length r = length segs" by auto
  with run show ?thesis by blast
qed

lemma multi_round_trip:
  assumes "parts \<noteq> []" and "length toks = length parts - 1"
  shows "\<exists>r. splitHTMLByPlaceholder (combineHTMLStrings parts (Multi toks)) (Multi toks) = Inr r
           \<and> length r = length parts"
proof -
  from assms have "length (map part_text parts) = length toks + 1"
    by (cases parts) simp_all
  from split_multi_tokens_in_order[OF combine_multi_interleave this] show ?thesis by simp
qed

text \<open>
  C1.  The round trip \<open>split (combine parts ph) ph\<close> should give as many segments
  as there are parts.  It does not for the parts of
  \<open>html`@TEMPLATE_EXPRESSION()${x}`\<close>: the generated token
  \<open>@TEMPLATE_EXPRESSION();\<close> is in no part's text and stands exactly once in the
  combined string, but the splitter also cuts at the token without its final
  semicolon, which the first part's text contains; three segments come back for
  two parts.
\<close>

theorem round_trip_failing_input:
  "getPlaceholder [part ''@TEMPLATE_EXPRESSION()'' 5, part '''' 31] (Some ''html'') [] []
     = Some (Single ''@TEMPLATE_EXPRESSION();'')
   \<and> combineHTMLStrings [part ''@TEMPLATE_EXPRESSION()'' 5, part '''' 31]
        (Single ''@TEMPLATE_EXPRESSION();'')
     = ''@TEMPLATE_EXPRESSION()@TEMPLATE_EXPRESSION();''
   \<and> js_split ''@TEMPLATE_EXPRESSION()@TEMPLATE_EXPRESSION();'' ''@TEMPLATE_EXPRESSION();''
     = [''@TEMPLATE_EXPRESSION()'', '''']
   \<and> splitHTMLByPlaceholder ''@TEMPLATE_EXPRESSION()@TEMPLATE_EXPRESSION();''
        (Single ''@TEMPLATE_EXPRESSION();'')
     = Inr ['''', '''', '''']
   \<and> length ['''', '''', ''''] \<noteq> length [part ''@TEMPLATE_EXPRESSION()'' 5, part '''' 31]"
  by (simp add: eval_defs)

text \<open>
  C2.  In stylesheet mode a generated token can occur in a part's text: the
  numeral drawn for a numeric-unit boundary is only checked against the text
  before the boundary, and the tokens built from the random base string are not
  checked at all.
\<close>

theorem stylesheet_token_collision:
  "getPlaceholder [part ''a{width:'' 4, part ''px;height:7px}'' 16] (Some ''css'')
       [0, 0, 0, 0, 0, 0] [7]
     = Some (Multi [''7''])
   \<and> str_includes (part_text ([part ''a{width:'' 4, part ''px;height:7px}'' 16] ! 1)) ''7''
   \<and> getPlaceholder [part ''a{b:var(--tmp_000000000000);c:'' 4, part ''}'' 38] (Some ''css'')
       [0, 0, 0, 0, 0, 0] []
     = Some (Multi [''var(--tmp_000000000000)''])
   \<and> str_includes (part_text ([part ''a{b:var(--tmp_000000000000);c:'' 4, part ''}'' 38] ! 0))
        ''var(--tmp_000000000000)''"
  by (simp add: eval_defs)

text \<open>
  C3.  In stylesheet mode two calls with the same parts and tag return different
  placeholders when the random bytes differ.
\<close>

theorem stylesheet_placeholder_not_deterministic:
  "getPlaceholder [part ''a{color:'' 4, part ''}'' 16] (Some ''css'') [0, 0, 0, 0, 0, 0] []
     = Some (Multi [''var(--tmp_000000000000)''])
   \<and> getPlaceholder [part ''a{color:'' 4, part ''}'' 16] (Some ''css'') [0, 0, 0, 0, 0, 1] []
     = Some (Multi [''var(--tmp_000000000001)''])
   \<and> getPlaceholder [part ''a{color:'' 4, part ''}'' 16] (Some ''css'') [0, 0, 0, 0, 0, 0] []
     \<noteq> getPlaceholder [part ''a{color:'' 4, part ''}'' 16] (Some ''css'') [0, 0, 0, 0, 0, 1] []"
  by (simp add: eval_defs)

section \<open>Properties of the minifier adapter\<close>

text \<open>
  On the warning path \<open>minifyCSS\<close> returns the text it handed to the stylesheet
  minifier, without its line breaks; that is the input text without its line
  breaks when the input has no \<open>@TEMPLATE_EXPRESSION();:\<close>.
\<close>

lemma replaceAll_absent:
  "pat \<noteq> [] \<Longrightarrow> \<not> str_includes s pat \<Longrightarrow> replaceAll s pat rep = s"
  by (subst replaceAll.simps) (simp add: str_includes_def)

lemma minifyCSS_warnings:
  assumes "errors (cleanCSS (adjustMinifyCSSOptions options)
             (replaceAll css ''@TEMPLATE_EXPRESSION();:'' ''--TEMPLATE-EXPRESSION:'')) = []"
    and "warnings (cleanCSS (adjustMinifyCSSOptions options)
             (replaceAll css ''@TEMPLATE_EXPRESSION();:'' ''--TEMPLATE-EXPRESSION:'')) \<noteq> []"
  shows "minifyCSS cleanCSS css options
     = Inr (filter (\<lambda>c. c \<noteq> CHR 0x0A \<and> c \<noteq> CHR 0x0D)
              (replaceAll css ''@TEMPLATE_EXPRESSION();:'' ''--TEMPLATE-EXPRESSION:''))"
  using assms by (simp add: minifyCSS_def Let_def)

lemma minifyCSS_warnings_plain:
  assumes "\<not> str_includes css ''@TEMPLATE_EXPRESSION();:''"
    and "errors (cleanCSS (adjustMinifyCSSOptions options) css) = []"
    and "warnings (cleanCSS (adjustMinifyCSSOptions options) css) \<noteq> []"
  shows "minifyCSS cleanCSS css options
     = Inr (filter (\<lambda>c. c \<noteq> CHR 0x0A \<and> c \<noteq> CHR 0x0D) css)"
proof -
  have "replaceAll css ''@TEMPLATE_EXPRESSION();:'' ''--TEMPLATE-EXPRESSION:'' = css"
    using assms(1) by (simp add: replaceAll_absent)
  with assms(2,3) minifyCSS_warnings[of cleanCSS options css] show ?thesis by simp
qed

text \<open>
  C5.  On warnings (and no errors) \<open>minifyCSS\<close> should return the original input
  with the line breaks removed and nothing else changed.  For an input that
  holds \<open>@TEMPLATE_EXPRESSION();:\<close> it returns the rewritten text instead: the
  rewrite to \<open>--TEMPLATE-EXPRESSION:\<close> made before the minifier runs is not undone
  on this path.
\<close>

theorem minifyCSS_warning_path_failing_input:
  "errors ((\<lambda>opts css. \<lparr>styles = ''a{}'', errors = [], warnings = [''Invalid property name'']\<rparr>)
       (adjustMinifyCSSOptions None)
       (replaceAll (''a{@TEMPLATE_EXPRESSION();:red'' @ [CHR 0x0A] @ ''}'')
          ''@TEMPLATE_EXPRESSION();:'' ''--TEMPLATE-EXPRESSION:'')) = []
   \<and> minifyCSS
        (\<lambda>opts css. \<lparr>styles = ''a{}'', errors = [], warnings = [''Invalid property name'']\<rparr>)
        (''a{@TEMPLATE_EXPRESSION();:red'' @ [CHR 0x0A] @ ''}'') None
      = Inr ''a{--TEMPLATE-EXPRESSION:red}''
   \<and> filter (\<lambda>c. c \<noteq> CHR 0x0A \<and> c \<noteq> CHR 0x0D)
         (''a{@TEMPLATE_EXPRESSION();:red'' @ [CHR 0x0A] @ ''}'')
      = ''a{@TEMPLATE_EXPRESSION();:red}''
   \<and> ''a{--TEMPLATE-EXPRESSION:red}'' \<noteq> ''a{@TEMPLATE_EXPRESSION();:red}''"
  by (simp add: adapter_defs eval_defs)

text \<open>
  The test for a placeholder inside a comment fires when no line terminator
  stands between \<open><!--\<close>, the token \<open>@TEMPLATE_EXPRESSION();\<close> and \<open>-->\<close>; then
  \<open>minifyHTML\<close> returns its input unchanged.
\<close>

lemma rx_match_lit_ok:
  assumes "\<forall>pos marks. rx_match r s pos marks \<noteq> None"
  shows "rx_match (lit p @ r) (p @ s) pos marks \<noteq> None"
  using assms by (induction p arbitrary: pos) (simp_all add: lit_def)

lemma rx_match_mark_ok:
  assumes "\<forall>pos marks. rx_match r s pos marks \<noteq> None"
  shows "rx_match (Mark # r) s pos marks \<noteq> None"
  using assms by simp

lemma rx_match_lazy_ok:
  assumes "list_all P b" and "\<forall>pos marks. rx_match r s pos marks \<noteq> None"
  shows "rx_match (Lazy P # r) (b @ s) pos marks \<noteq> None"
  using assms
proof (induction b arbitrary: pos)
  case Nil
  then have "rx_match r s pos marks \<noteq> None" by blast
  then show ?case by (cases s) (auto split: option.splits)
next
  case (Cons x b)
  then have "rx_match (Lazy P # r) (b @ s) (Suc pos) marks \<noteq> None" by simp
  with Cons.prems(1) show ?case by (auto split: option.splits)
qed

lemma rx_find_ok:
  assumes "\<forall>pos marks. rx_match r s2 pos marks \<noteq> None"
  shows "rx_find r (s1 @ s2) pos \<noteq> None"
  using assms
proof (induction s1 arbitrary: pos)
  case Nil
  then have "rx_match r s2 pos [] \<noteq> None" by blast
  then show ?case by (cases s2) (auto split: option.splits)
next
  case (Cons c s1)
  then have "rx_find r (s1 @ s2) (Suc pos) \<noteq> None" by simp
  then show ?case by (auto split: option.splits)
qed

lemma comment_rx_fires:
  assumes "html = pre @ ''<!--'' @ b @ ''@TEMPLATE_EXPRESSION();'' @ c @ ''-->'' @ post"
    and "list_all dot b" and "list_all dot c"
  shows "rx_exec comment_rx html 0 \<noteq> None"
proof -
  have e: "\<forall>pos marks. rx_match [] post pos marks \<noteq> None" by simp
  have 1: "\<forall>pos marks. rx_match (lit ''-->'') (''-->'' @ post) pos marks \<noteq> None"
    using rx_match_lit_ok[OF e, of "''-->''"] by simp
  have 2: "\<forall>pos marks. rx_match (Mark # lit ''-->'') (''-->'' @ post) pos marks \<noteq> None"
    using 1 by simp
  have 3: "\<forall>pos marks. rx_match (Lazy dot # Mark # lit ''-->'') (c @ ''-->'' @ post) pos marks \<noteq> None"
    using rx_match_lazy_ok[OF assms(3) 2] by blast
  have 4: "\<forall>pos marks. rx_match (Mark # Lazy dot # Mark # lit ''-->'') (c @ ''-->'' @ post) pos marks \<noteq> None"
    using 3 by simp
  have 5: "\<forall>pos marks. rx_match (lit ''@TEMPLATE_EXPRESSION();'' @ Mark # Lazy dot # Mark # lit ''-->'')
             (''@TEMPLATE_EXPRESSION();'' @ c @ ''-->'' @ post) pos marks \<noteq> None"
    using rx_match_lit_ok[OF 4] by blast
  have 6: "\<forall>pos marks. rx_match (Mark # lit ''@TEMPLATE_EXPRESSION();'' @ Mark # Lazy dot # Mark # lit ''-->'')
             (''@TEMPLATE_EXPRESSION();'' @ c @ ''-->'' @ post) pos marks \<noteq> None"
    using 5 by simp
  have 7: "\<forall>pos marks. rx_match (Lazy dot # Mark # lit ''@TEMPLATE_EXPRESSION();'' @ Mark # Lazy dot # Mark # lit ''-->'')
             (b @ ''@TEMPLATE_EXPRESSION();'' @ c @ ''-->'' @ post) pos marks \<noteq> None"
    using rx_match_lazy_ok[OF assms(2) 6] by blast
  have 8: "\<forall>pos marks. rx_match (Mark # Lazy dot # Mark # lit ''@TEMPLATE_EXPRESSION();'' @ Mark # Lazy dot # Mark # lit ''-->'')
             (b @ ''@TEMPLATE_EXPRESSION();'' @ c @ ''-->'' @ post) pos marks \<noteq> None"
    using 7 by simp
  have 9: "\<forall>pos marks. rx_match (lit ''<!--'' @ Mark # Lazy dot # Mark # lit ''@TEMPLATE_EXPRESSION();'' @ Mark # Lazy dot # Mark # lit ''-->'')
             (''<!--'' @ b @ ''@TEMPLATE_EXPRESSION();'' @ c @ ''-->'' @ post) pos marks \<noteq> None"
    using rx_match_lit_ok[OF 8] by blast
  have rx: "comment_rx = lit ''<!--'' @ Mark # Lazy dot # Mark # lit ''@TEMPLATE_EXPRESSION();'' @ Mark # Lazy dot # Mark # lit ''-->''"
    by (simp add: comment_rx_def)
  from rx_find_ok[OF 9, of pre 0] rx assms(1) show ?thesis
    by (simp add: rx_exec_def)
qed

lemma minifyHTML_aborts_on_one_line_comment:
  assumes "html = pre @ ''<!--'' @ b @ ''@TEMPLATE_EXPRESSION();'' @ c @ ''-->'' @ post"
    and "\<forall>x\<in>set b. \<not> is_line_terminator x" and "\<forall>x\<in>set c. \<not> is_line_terminator x"
  shows "minifyHTML minify html options = Inr html"
proof -
  from assms(2,3) have "list_all dot b" "list_all dot c"
    by (simp_all add: list_all_iff dot_def)
  from comment_rx_fires[OF assms(1) this] show ?thesis
    by (simp add: minifyHTML_def)
qed

text \<open>
  C6.  A placeholder inside a markup comment should make \<open>minifyHTML\<close> return its
  input unchanged.  When a line break stands between \<open><!--\<close> and the token the
  test does not fire (\<open>.\<close> matches no line terminator): the minifier runs, and with
  a minifier that removes comments the result is not the input (and has lost the
  token).
\<close>

theorem minifyHTML_comment_failing_input:
  "rx_exec comment_rx (''<p><!--'' @ [CHR 0x0A] @ ''@TEMPLATE_EXPRESSION();-->text</p>'') 0 = None
   \<and> minifyHTML (\<lambda>html opts. Inr (drop_comments html))
        (''<p><!--'' @ [CHR 0x0A] @ ''@TEMPLATE_EXPRESSION();-->text</p>'')
        \<lparr>collapseWhitespace = True, minifyCSS_option = CssOptions (), other_options = ()\<rparr>
      = Inr ''<p>text</p>''
   \<and> ''<p>text</p>'' \<noteq> ''<p><!--'' @ [CHR 0x0A] @ ''@TEMPLATE_EXPRESSION();-->text</p>''"
  by (simp add: adapter_defs eval_defs)

section \<open>Properties of the validator and the orchestrator\<close>

text \<open>
  C8.  \<open>ensurePlaceholderValid\<close> throws exactly for the empty string and for an array
  that contains an empty string, and returns for every other placeholder.
\<close>

theorem ensurePlaceholderValid_throws_iff:
  "(ensurePlaceholderValid ph = Inl InvalidPlaceholder
      \<longleftrightarrow> (ph = Single [] \<or> (\<exists>phs. ph = Multi phs \<and> [] \<in> set phs)))
   \<and> (ensurePlaceholderValid ph = Inr ()
      \<longleftrightarrow> \<not> (ph = Single [] \<or> (\<exists>phs. ph = Multi phs \<and> [] \<in> set phs)))"
proof (cases ph)
  case (Single p)
  then show ?thesis by (simp add: ensurePlaceholderValid_def)
next
  case (Multi phs)
  have "list_all (\<lambda>ph. length ph > 0) phs \<longleftrightarrow> [] \<notin> set phs"
    by (induction phs) auto
  with Multi show ?thesis by (simp add: ensurePlaceholderValid_def)
qed

theorem ensurePlaceholderValid_throws_iff_witness:
  "ensurePlaceholderValid (Multi [''var(--t)'', '''']) = Inl InvalidPlaceholder
   \<and> ensurePlaceholderValid (Single '''') = Inl InvalidPlaceholder
   \<and> ensurePlaceholderValid (Single ''@TEMPLATE_EXPRESSION();'') = Inr ()
   \<and> ensurePlaceholderValid (Multi [''var(--t)'', ''7'']) = Inr ()
   \<and> ensurePlaceholderValid (Multi []) = Inr ()"
proof -
  have a: "ensurePlaceholderValid (Multi [''var(--t)'', '''']) = Inl InvalidPlaceholder"
    using ensurePlaceholderValid_throws_iff[of "Multi [''var(--t)'', '''']"] by simp
  have b: "ensurePlaceholderValid (Single '''') = Inl InvalidPlaceholder"
    using ensurePlaceholderValid_throws_iff[of "Single ''''"] by simp
  have c: "ensurePlaceholderValid (Single ''@TEMPLATE_EXPRESSION();'') = Inr ()"
    using ensurePlaceholderValid_throws_iff[of "Single ''@TEMPLATE_EXPRESSION();''"] by simp
  have d: "ensurePlaceholderValid (Multi [''var(--t)'', ''7'']) = Inr ()"
    using ensurePlaceholderValid_throws_iff[of "Multi [''var(--t)'', ''7'']"] by simp
  have e: "ensurePlaceholderValid (Multi []) = Inr ()"
    using ensurePlaceholderValid_throws_iff[of "Multi []"] by simp
  from a b c d e show ?thesis by simp
qed














text \<open>
  The causes of a throw: the template qualifies, \<open>getPlaceholder\<close> has returned, and
  the validator rejects the placeholder, or the minifier fails, or the splitter
  fails, or the validator rejects the parts.
\<close>

lemma process_template_throws_iff:
  "process_template strat options source r t ms = Some (Inl e) \<longleftrightarrow>
     (wants_html options source t \<or> wants_css strat options source t)
     \<and> (\<exists>placeholder.
          st_getPlaceholder strat (template_parts t) (template_tag t) r = Some placeholder
          \<and> ((\<exists>v. the_validation options = Some v
                   \<and> v_ensurePlaceholderValid v placeholder = Inl e)
             \<or> (\<forall>v. the_validation options = Some v
                   \<longrightarrow> v_ensurePlaceholderValid v placeholder \<noteq> Inl e
                       \<and> (\<exists>u. v_ensurePlaceholderValid v placeholder = Inr u))
               \<and> (minify_combined strat options (wants_css strat options source t)
                     (st_combineHTMLStrings strat (template_parts t) placeholder) = Inl e
                  \<or> (\<exists>min_text.
                       minify_combined strat options (wants_css strat options source t)
                         (st_combineHTMLStrings strat (template_parts t) placeholder)
                         = Inr min_text
                       \<and> (st_splitHTMLByPlaceholder strat min_text placeholder = Inl e
                          \<or> (\<exists>minParts v.
                               st_splitHTMLByPlaceholder strat min_text placeholder
                                 = Inr minParts
                               \<and> the_validation options = Some v
                               \<and> v_ensureHTMLPartsValid v (template_parts t) minParts
                                   = Inl e))))))"
  by (auto simp: process_template_def Let_def split: option.splits sum.splits)



end
